theory Spec2Isabelle
  imports Main "HOL-Library.Product_Lexorder" "HOL-Library.AList" "HOL-Library.Multiset"
begin

text \<open>
  A model of the rule engine, the fixer and the error handler of the code-migration
  command-line tool (\<open>lib/ruleEngine.js\<close>, \<open>lib/fixer.js\<close>, \<open>lib/errorHandler.js\<close>), and
  what holds of them.  A thrown error is a value \<open>Inl\<close> carrying its message; the objects
  the code mutates (the error handler, the engine, the fixer, the file system) are passed
  in and returned.
\<close>

section \<open>Strings and paths\<close>

text \<open>
  JavaScript strings are modelled as \<^typ>\<open>string\<close>, one \<^typ>\<open>char\<close> per code unit
  (exact for ASCII text).  \<open>path.basename\<close> (POSIX flavour): trailing slashes are
  dropped, then the part after the last slash is kept.
\<close>

definition basename :: "string \<Rightarrow> string" where
  "basename p =
     rev (takeWhile (\<lambda>c. c \<noteq> CHR ''/'') (dropWhile (\<lambda>c. c = CHR ''/'') (rev p)))"

definition newline :: char where
  "newline = CHR 0x0A"

text \<open>\<open>s.split('\n')\<close>: the pieces between line feeds; the empty string gives one piece.\<close>

fun split_newline :: "string \<Rightarrow> string list" where
  "split_newline [] = [[]]"
| "split_newline (c # cs) =
     (if c = newline then [] # split_newline cs
      else (case split_newline cs of [] \<Rightarrow> [[c]] | l # ls \<Rightarrow> (c # l) # ls))"

text \<open>\<open>s.lastIndexOf(c)\<close> for a single character: the last position of \<open>c\<close>, or \<open>-1\<close>.\<close>

definition lastIndexOf :: "string \<Rightarrow> char \<Rightarrow> int" where
  "lastIndexOf s c =
     (if c \<in> set s then int (length s) - 1 - int (length (takeWhile (\<lambda>x. x \<noteq> c) (rev s)))
      else - 1)"

text \<open>\<open>s.indexOf(t)\<close>: the first position at which \<open>t\<close> occurs in \<open>s\<close>.\<close>

fun indexOf_from :: "string \<Rightarrow> string \<Rightarrow> nat \<Rightarrow> nat option" where
  "indexOf_from [] t i = (if t = [] then Some i else None)"
| "indexOf_from (c # cs) t i =
     (if take (length t) (c # cs) = t then Some i else indexOf_from cs t (Suc i))"

definition indexOf :: "string \<Rightarrow> string \<Rightarrow> nat option" where
  "indexOf s t = indexOf_from s t 0"

text \<open>\<open>s.includes(t)\<close>.\<close>

definition str_includes :: "string \<Rightarrow> string \<Rightarrow> bool" where
  "str_includes s t = (indexOf s t \<noteq> None)"

subsection \<open>Replacement templates\<close>

text \<open>
  \<open>GetSubstitution\<close> of ECMAScript, which \<open>String.prototype.replace\<close> uses to expand a
  replacement string: \<open>$$\<close>, \<open>$&\<close>, the text before (\<open>$`\<close>) and after (\<open>$'\<close>) the match,
  and the numbered groups \<open>$n\<close>, \<open>$nn\<close>.  A group that did not take part in the match is
  \<open>None\<close> and expands to the empty string; a number with no such group stays as written.
  Named groups (\<open>$<name>\<close>) are not modelled: without named groups in the pattern the
  text stays as written, which is what the last equation does.
\<close>

definition is_digit :: "char \<Rightarrow> bool" where
  "is_digit c = (c \<in> set ''0123456789'')"

definition digit_val :: "char \<Rightarrow> nat" where
  "digit_val c = length (takeWhile (\<lambda>x. x \<noteq> c) ''0123456789'')"

definition capture_text :: "string option list \<Rightarrow> nat \<Rightarrow> string" where
  "capture_text caps n = (case caps ! (n - 1) of None \<Rightarrow> [] | Some t \<Rightarrow> t)"

fun getSubstitution ::
  "string \<Rightarrow> string \<Rightarrow> nat \<Rightarrow> string option list \<Rightarrow> string \<Rightarrow> string" where
  "getSubstitution matched str pos caps [] = []"
| "getSubstitution matched str pos caps [c] = [c]"
| "getSubstitution matched str pos caps (c # d # rest) =
     (if c \<noteq> CHR ''$'' then c # getSubstitution matched str pos caps (d # rest)
      else if d = CHR ''$'' then CHR ''$'' # getSubstitution matched str pos caps rest
      else if d = CHR ''&'' then matched @ getSubstitution matched str pos caps rest
      else if d = CHR 0x60 then take pos str @ getSubstitution matched str pos caps rest
      else if d = CHR 0x27
        then drop (pos + length matched) str @ getSubstitution matched str pos caps rest
      else if is_digit d then
        (case rest of
           e # rest' \<Rightarrow>
             (if is_digit e \<and> 1 \<le> 10 * digit_val d + digit_val e
                 \<and> 10 * digit_val d + digit_val e \<le> length caps
              then capture_text caps (10 * digit_val d + digit_val e)
                   @ getSubstitution matched str pos caps rest'
              else if 1 \<le> digit_val d \<and> digit_val d \<le> length caps
              then capture_text caps (digit_val d) @ getSubstitution matched str pos caps rest
              else c # d # getSubstitution matched str pos caps rest)
         | [] \<Rightarrow>
             (if 1 \<le> digit_val d \<and> digit_val d \<le> length caps
              then capture_text caps (digit_val d)
              else [c, d]))
      else c # getSubstitution matched str pos caps (d # rest))"

text \<open>
  \<open>s.replace(t, r)\<close> with a string pattern \<open>t\<close>: only the first occurrence of \<open>t\<close> is
  replaced, by the expansion of \<open>r\<close> (there are no groups).
\<close>

definition replace_string :: "string \<Rightarrow> string \<Rightarrow> string \<Rightarrow> string" where
  "replace_string s t r =
     (case indexOf s t of
        None \<Rightarrow> s
      | Some i \<Rightarrow> take i s @ getSubstitution t s i [] r @ drop (i + length t) s)"

section \<open>Regular expressions\<close>

text \<open>
  The regular-expression engine is the JavaScript runtime's, not the repository's.  The
  model takes it as a parameter: \<open>compile\<close> is \<open>new RegExp(source, flags)\<close> for a global
  expression (the boolean is the \<open>m\<close> flag) and answers the engine's error message when
  the source is not a valid pattern; \<open>match_at\<close> is the engine's matcher at one start
  position, answering the length of the match and its groups.  What the repository's
  code does with the engine (\<open>exec\<close> with \<open>lastIndex\<close>, global \<open>replace\<close>) is built on top,
  following ECMAScript's \<open>RegExpBuiltinExec\<close> and \<open>RegExp.prototype[Symbol.replace]\<close>.
\<close>

record 'rx regex_engine =
  compile :: "string \<Rightarrow> bool \<Rightarrow> string + 'rx"
  match_at :: "'rx \<Rightarrow> string \<Rightarrow> nat \<Rightarrow> (nat \<times> string option list) option"

record regex_match =
  m_index :: nat
  m_text :: string
  m_groups :: "string option list"

text \<open>
  \<open>rx.exec(s)\<close> with \<open>rx.lastIndex = i\<close> on a global expression: the first start position
  from \<open>i\<close> on at which the matcher succeeds; no match once the position is past the
  end.  A match never extends past the end of the string.
\<close>

function regexp_exec :: "'rx regex_engine \<Rightarrow> 'rx \<Rightarrow> string \<Rightarrow> nat \<Rightarrow> regex_match option" where
  "regexp_exec E rx s i =
     (if length s < i then None
      else (case match_at E rx s i of
              Some (len, caps) \<Rightarrow>
                Some \<lparr>m_index = i, m_text = take len (drop i s), m_groups = caps\<rparr>
            | None \<Rightarrow> regexp_exec E rx s (Suc i)))"
  by pat_completeness auto
termination
  by (relation "measure (\<lambda>(E, rx, s, i). Suc (length s) - i)") auto

text \<open>The value of \<open>lastIndex\<close> after a successful \<open>exec\<close>: the end of the match.\<close>

definition m_end :: "regex_match \<Rightarrow> nat" where
  "m_end m = m_index m + length (m_text m)"

text \<open>
  Where the next search starts: at the end of the match, one further after an empty
  match (the \<open>lastIndex++\<close> of the scan loop, \<open>AdvanceStringIndex\<close> in \<open>replace\<close>).
\<close>

definition next_index :: "regex_match \<Rightarrow> nat" where
  "next_index m = (if length (m_text m) = 0 then m_end m + 1 else m_end m)"

lemma regexp_exec_bounds:
  "regexp_exec E rx s i = Some m \<Longrightarrow> i \<le> m_index m \<and> m_end m \<le> length s"
proof (induction E rx s i rule: regexp_exec.induct)
  case (1 E rx s i)
  show ?case
  proof (cases "length s < i")
    case True
    with "1.prems" show ?thesis by (simp add: regexp_exec.simps [of E rx s i])
  next
    case False
    show ?thesis
    proof (cases "match_at E rx s i")
      case None
      with False "1.prems" have "regexp_exec E rx s (Suc i) = Some m"
        by (simp add: regexp_exec.simps [of E rx s i])
      with "1.IH" False None have "Suc i \<le> m_index m \<and> m_end m \<le> length s" by simp
      then show ?thesis by simp
    next
      case (Some r)
      obtain len caps where r: "r = (len, caps)" by (cases r)
      with False Some "1.prems"
      have "m = \<lparr>m_index = i, m_text = take len (drop i s), m_groups = caps\<rparr>"
        by (simp add: regexp_exec.simps [of E rx s i])
      with False show ?thesis by (simp add: m_end_def)
    qed
  qed
qed

declare regexp_exec.simps [simp del]

lemma next_index_advances:
  assumes "regexp_exec E rx s i = Some m"
  shows "i < next_index m \<and> i \<le> length s"
proof -
  from assms have "i \<le> m_index m \<and> m_end m \<le> length s"
    by (rule regexp_exec_bounds)
  then show ?thesis
    by (cases "m_text m") (simp_all add: next_index_def m_end_def)
qed

text \<open>
  All matches of a global expression, left to right: \<open>exec\<close> repeated from \<open>lastIndex\<close>
  until it answers \<open>null\<close>.  This is the loop of \<open>replace\<close>; the scan loop of the rule
  engine is the same loop with a cap on its iterations.
\<close>

function collect_matches :: "'rx regex_engine \<Rightarrow> 'rx \<Rightarrow> string \<Rightarrow> nat \<Rightarrow> regex_match list" where
  "collect_matches E rx s i =
     (case regexp_exec E rx s i of
        None \<Rightarrow> []
      | Some m \<Rightarrow> m # collect_matches E rx s (next_index m))"
  by pat_completeness auto
termination
proof (relation "measure (\<lambda>(E, rx, s, i). Suc (length s) - i)")
  show "wf (measure (\<lambda>(E, rx, s, i). Suc (length s) - i))" by simp
next
  fix E :: "'rx regex_engine" and rx s i m
  assume "regexp_exec E rx s i = Some m"
  then have "i < next_index m \<and> i \<le> length s" by (rule next_index_advances)
  then show "((E, rx, s, next_index m), (E, rx, s, i))
      \<in> measure (\<lambda>(E, rx, s, i). Suc (length s) - i)"
    by auto
qed

declare collect_matches.simps [simp del]

text \<open>
  Assembling the result of a global \<open>replace\<close>: each match at or after the end of the
  previous one is replaced by the expansion of the template, the text in between is kept.
\<close>

fun substitute_matches :: "string \<Rightarrow> string \<Rightarrow> nat \<Rightarrow> regex_match list \<Rightarrow> string" where
  "substitute_matches s r nextPos [] = drop nextPos s"
| "substitute_matches s r nextPos (m # ms) =
     (if nextPos \<le> m_index m
      then take (m_index m - nextPos) (drop nextPos s)
           @ getSubstitution (m_text m) s (m_index m) (m_groups m) r
           @ substitute_matches s r (m_end m) ms
      else substitute_matches s r nextPos ms)"

text \<open>\<open>s.replace(rx, r)\<close> for a global expression \<open>rx\<close>.\<close>

definition replace_regex :: "'rx regex_engine \<Rightarrow> 'rx \<Rightarrow> string \<Rightarrow> string \<Rightarrow> string" where
  "replace_regex E rx s r = substitute_matches s r 0 (collect_matches E rx s 0)"

subsection \<open>A fragment of the JavaScript pattern language\<close>

text \<open>
  For the concrete scenarios an engine for a small fragment of JavaScript's patterns:
  a sequence of single-character atoms (a literal, \<open>.\<close>, \<open>\d\<close>, \<open>\w\<close>, \<open>\s\<close> and their
  complements, an escaped punctuation character), each with an optional greedy
  quantifier \<open>*\<close>, \<open>+\<close> or \<open>?\<close>, and the word-boundary assertions \<open>\b\<close> and \<open>\B\<close>.  On
  this fragment it matches as JavaScript does (greedy, backtracking, leftmost).  A
  pattern outside the fragment is answered with an error; the scenarios below use
  patterns of the fragment only.  The fragment has no groups and no \<open>^\<close> or \<open>$\<close>, so the
  \<open>m\<close> flag changes nothing.
\<close>

datatype js_atom = Lit char | AnyChar | Digit | Word | Space | NotDigit | NotWord | NotSpace

datatype js_item = One js_atom | Star js_atom | Plus js_atom | Opt js_atom | WordB | NotWordB

definition is_word_char :: "char \<Rightarrow> bool" where
  "is_word_char c =
     (c \<in> set ''abcdefghijklmnopqrstuvwxyzABCDEFGHIJKLMNOPQRSTUVWXYZ0123456789_'')"

definition is_space_char :: "char \<Rightarrow> bool" where
  "is_space_char c =
     (c \<in> set [CHR 0x20, CHR 0x09, CHR 0x0A, CHR 0x0B, CHR 0x0C, CHR 0x0D, CHR 0xA0])"

fun atom_matches :: "js_atom \<Rightarrow> char \<Rightarrow> bool" where
  "atom_matches (Lit a) c = (c = a)"
| "atom_matches AnyChar c = (c \<noteq> CHR 0x0A \<and> c \<noteq> CHR 0x0D)"
| "atom_matches Digit c = is_digit c"
| "atom_matches Word c = is_word_char c"
| "atom_matches Space c = is_space_char c"
| "atom_matches NotDigit c = (\<not> is_digit c)"
| "atom_matches NotWord c = (\<not> is_word_char c)"
| "atom_matches NotSpace c = (\<not> is_space_char c)"

text \<open>A word boundary at position \<open>i\<close>: exactly one side of it is a word character.\<close>

definition word_char_at :: "string \<Rightarrow> int \<Rightarrow> bool" where
  "word_char_at s i = (0 \<le> i \<and> i < int (length s) \<and> is_word_char (s ! nat i))"

definition is_word_boundary :: "string \<Rightarrow> nat \<Rightarrow> bool" where
  "is_word_boundary s i = (word_char_at s (int i - 1) \<noteq> word_char_at s (int i))"

text \<open>How many characters from position \<open>i\<close> on match the atom.\<close>

definition run_length :: "js_atom \<Rightarrow> string \<Rightarrow> nat \<Rightarrow> nat" where
  "run_length a s i = length (takeWhile (atom_matches a) (drop i s))"

text \<open>
  Greedy backtracking: try the continuation \<open>k\<close> after \<open>n\<close> repetitions, then after
  fewer, down to \<open>lo\<close> repetitions.
\<close>

fun try_down :: "(nat \<Rightarrow> nat option) \<Rightarrow> nat \<Rightarrow> nat \<Rightarrow> nat \<Rightarrow> nat option" where
  "try_down k i lo 0 = (if lo = 0 then k i else None)"
| "try_down k i lo (Suc n) =
     (if Suc n < lo then None
      else (case k (i + Suc n) of Some e \<Rightarrow> Some e | None \<Rightarrow> try_down k i lo n))"

text \<open>The end position of the match of the items starting at position \<open>i\<close>, if any.\<close>

fun js_match :: "js_item list \<Rightarrow> string \<Rightarrow> nat \<Rightarrow> nat option" where
  "js_match [] s i = Some i"
| "js_match (One a # r) s i =
     (if i < length s \<and> atom_matches a (s ! i) then js_match r s (Suc i) else None)"
| "js_match (Star a # r) s i = try_down (\<lambda>j. js_match r s j) i 0 (run_length a s i)"
| "js_match (Plus a # r) s i = try_down (\<lambda>j. js_match r s j) i 1 (run_length a s i)"
| "js_match (Opt a # r) s i = try_down (\<lambda>j. js_match r s j) i 0 (min 1 (run_length a s i))"
| "js_match (WordB # r) s i = (if is_word_boundary s i then js_match r s i else None)"
| "js_match (NotWordB # r) s i = (if is_word_boundary s i then None else js_match r s i)"

text \<open>Reading a pattern of the fragment.\<close>

definition backslash :: char where
  "backslash = CHR 0x5C"

definition syntax_chars :: "char list" where
  "syntax_chars = backslash # ''^$.*+?()[]{}|''"

fun escape_atom :: "char \<Rightarrow> js_atom option" where
  "escape_atom c =
     (if c = CHR ''d'' then Some Digit
      else if c = CHR ''D'' then Some NotDigit
      else if c = CHR ''w'' then Some Word
      else if c = CHR ''W'' then Some NotWord
      else if c = CHR ''s'' then Some Space
      else if c = CHR ''S'' then Some NotSpace
      else if c = CHR ''n'' then Some (Lit (CHR 0x0A))
      else if c = CHR ''t'' then Some (Lit (CHR 0x09))
      else if c \<in> set syntax_chars \<or> c = CHR ''/'' then Some (Lit c)
      else None)"

fun parse_quantifier :: "js_atom \<Rightarrow> string \<Rightarrow> js_item \<times> string" where
  "parse_quantifier a [] = (One a, [])"
| "parse_quantifier a (c # cs) =
     (if c = CHR ''*'' then (Star a, cs)
      else if c = CHR ''+'' then (Plus a, cs)
      else if c = CHR ''?'' then (Opt a, cs)
      else (One a, c # cs))"

lemma parse_quantifier_length: "length (snd (parse_quantifier a s)) \<le> length s"
  by (cases s) auto

function parse_pattern :: "string \<Rightarrow> js_item list option" where
  "parse_pattern [] = Some []"
| "parse_pattern (c # cs) =
     (if c = backslash then
        (case cs of
           [] \<Rightarrow> None
         | d # ds \<Rightarrow>
             if d = CHR ''b'' then map_option (Cons WordB) (parse_pattern ds)
             else if d = CHR ''B'' then map_option (Cons NotWordB) (parse_pattern ds)
             else (case escape_atom d of
                     None \<Rightarrow> None
                   | Some a \<Rightarrow>
                       map_option (Cons (fst (parse_quantifier a ds)))
                         (parse_pattern (snd (parse_quantifier a ds)))))
      else if c = CHR ''.'' then
        map_option (Cons (fst (parse_quantifier AnyChar cs)))
          (parse_pattern (snd (parse_quantifier AnyChar cs)))
      else if c \<in> set syntax_chars then None
      else map_option (Cons (fst (parse_quantifier (Lit c) cs)))
             (parse_pattern (snd (parse_quantifier (Lit c) cs))))"
  by pat_completeness auto
termination
proof (relation "measure length")
  show "wf (measure length)" by simp
qed (auto simp: le_imp_less_Suc parse_quantifier_length
      intro: le_less_trans [OF parse_quantifier_length])

definition js_compile :: "string \<Rightarrow> bool \<Rightarrow> string + js_item list" where
  "js_compile src multiline =
     (case parse_pattern src of
        None \<Rightarrow> Inl ''Invalid regular expression''
      | Some items \<Rightarrow> Inr items)"

definition js_match_at :: "js_item list \<Rightarrow> string \<Rightarrow> nat \<Rightarrow> (nat \<times> string option list) option" where
  "js_match_at items s i = map_option (\<lambda>e. (e - i, [])) (js_match items s i)"

definition js_engine :: "js_item list regex_engine" where
  "js_engine = \<lparr>compile = js_compile, match_at = js_match_at\<rparr>"

section \<open>ErrorHandler (lib/errorHandler.js)\<close>

text \<open>
  The handler's state is its \<open>errorCounts\<close> object together with what it has written
  to the console.  A console line records the channel (\<open>console.warn\<close> with
  \<open>formatWarning\<close>, \<open>console.error\<close> with \<open>formatError\<close>) and the message handed to the
  formatter; the formatter only adds a fixed prefix and a colour.
\<close>

record error_counts =
  permission :: nat
  fileSize :: nat
  encoding :: nat
  timeout :: nat
  memory :: nat
  regex :: nat
  filesystem :: nat
  unknown :: nat

datatype console_line = Warn string | Err string

record error_handler =
  errorCounts :: error_counts
  console :: "console_line list"

datatype error_type =
  TPermission | TFileSize | TEncoding | TTimeout | TMemory | TRegex | TFilesystem | TUnknown

text \<open>The object a handler returns; a flag the source leaves out is \<open>False\<close> here.\<close>

record error_record =
  er_type :: error_type
  message :: string
  suggestion :: string
  recoverable :: bool
  skipFile :: bool
  skipRule :: bool
  critical :: bool

definition new_error_counts :: error_counts where
  "new_error_counts =
     \<lparr>permission = 0, fileSize = 0, encoding = 0, timeout = 0, memory = 0, regex = 0,
      filesystem = 0, unknown = 0\<rparr>"

definition new_ErrorHandler :: error_handler where
  "new_ErrorHandler = \<lparr>errorCounts = new_error_counts, console = []\<rparr>"

definition permission_report :: "string \<Rightarrow> console_line" where
  "permission_report filePath =
     Warn (''Permission denied: '' @ basename filePath @ '' - ''
           @ ''Check file permissions and ensure read access'')"

definition suppression_notice :: console_line where
  "suppression_notice =
     Warn (''Multiple permission errors detected. ''
           @ ''Further permission errors will be logged silently.'')"

definition handlePermissionError ::
  "error_handler \<Rightarrow> string \<Rightarrow> error_record \<times> error_handler" where
  "handlePermissionError h filePath =
     (let n = permission (errorCounts h) + 1;
          h1 = h\<lparr>errorCounts := (errorCounts h)\<lparr>permission := n\<rparr>\<rparr>;
          result = \<lparr>er_type = TPermission,
                    message = ''Permission denied: '' @ basename filePath,
                    suggestion = ''Check file permissions and ensure read access'',
                    recoverable = True, skipFile = True, skipRule = False,
                    critical = False\<rparr>;
          h2 = (if n \<le> 3 then h1\<lparr>console := console h1 @ [permission_report filePath]\<rparr>
                else if n = 4 then h1\<lparr>console := console h1 @ [suppression_notice]\<rparr>
                else h1)
      in (result, h2))"

definition handleRegexTimeoutError ::
  "error_handler \<Rightarrow> string \<Rightarrow> string \<Rightarrow> error_record \<times> error_handler" where
  "handleRegexTimeoutError h ruleId filePath =
     (let h1 = h\<lparr>errorCounts := (errorCounts h)\<lparr>timeout := timeout (errorCounts h) + 1\<rparr>\<rparr>;
          result = \<lparr>er_type = TTimeout,
                    message = ''Regex timeout in rule \"'' @ ruleId @ ''\" for ''
                              @ basename filePath,
                    suggestion = ''Rule pattern may be too complex or cause ''
                                 @ ''catastrophic backtracking'',
                    recoverable = True, skipFile = False, skipRule = True,
                    critical = False\<rparr>
      in (result,
          h1\<lparr>console := console h1 @ [Warn (message result @ '' - '' @ suggestion result)]\<rparr>))"

definition handleInvalidRegexError ::
  "error_handler \<Rightarrow> string \<Rightarrow> string \<Rightarrow> string \<Rightarrow> error_record \<times> error_handler" where
  "handleInvalidRegexError h ruleId pat errMessage =
     (let h1 = h\<lparr>errorCounts := (errorCounts h)\<lparr>regex := regex (errorCounts h) + 1\<rparr>\<rparr>;
          result = \<lparr>er_type = TRegex,
                    message = ''Invalid regex pattern in rule \"'' @ ruleId @ ''\": ''
                              @ errMessage,
                    suggestion = ''Check rule configuration and fix the regex pattern'',
                    recoverable = False, skipFile = False, skipRule = True,
                    critical = False\<rparr>
      in (result,
          h1\<lparr>console := console h1 @ [Err (message result @ '' - '' @ suggestion result)]\<rparr>))"

definition handleUnknownError ::
  "error_handler \<Rightarrow> string \<Rightarrow> string \<Rightarrow> error_record \<times> error_handler" where
  "handleUnknownError h operation errMessage =
     (let h1 = h\<lparr>errorCounts := (errorCounts h)\<lparr>unknown := unknown (errorCounts h) + 1\<rparr>\<rparr>;
          result = \<lparr>er_type = TUnknown,
                    message = ''Unexpected error during '' @ operation @ '': '' @ errMessage,
                    suggestion = ''This may be a bug. Consider reporting it with ''
                                 @ ''--verbose output'',
                    recoverable = False, skipFile = False, skipRule = False,
                    critical = True\<rparr>
      in (result,
          h1\<lparr>console := console h1 @ [Err (message result @ '' - '' @ suggestion result)]\<rparr>))"

text \<open>A run of permission errors in one session: the calls made one after the other.\<close>

fun handlePermissionErrors :: "error_handler \<Rightarrow> string list \<Rightarrow> error_handler" where
  "handlePermissionErrors h [] = h"
| "handlePermissionErrors h (p # ps) = handlePermissionErrors (snd (handlePermissionError h p)) ps"

section \<open>RuleEngine (lib/ruleEngine.js)\<close>

subsection \<open>Rules as read from the rules file\<close>

text \<open>
  The parsed rules file is a JSON value.  An object is the list of its entries, one per
  key; a number is irrelevant here beyond being zero or not.  A property that is not
  there is \<open>undefined\<close>, modelled as \<open>None\<close>.
\<close>

datatype json =
  JNull | JBool bool | JNum int | JStr string | JArr "json list" | JObj "(string \<times> json) list"

definition quote :: char where
  "quote = CHR 0x27"

text \<open>
  \<open>value[key]\<close> for the keys read here: reading a property of \<open>null\<close> throws a
  \<open>TypeError\<close>; a string, number, boolean or array has none of these properties.
\<close>

fun get_prop :: "json \<Rightarrow> string \<Rightarrow> string + json option" where
  "get_prop JNull k =
     Inl (''Cannot read properties of null (reading '' @ [quote] @ k @ [quote] @ '')'')"
| "get_prop (JObj kvs) k = Inr (map_of kvs k)"
| "get_prop (JBool b) k = Inr None"
| "get_prop (JNum n) k = Inr None"
| "get_prop (JStr t) k = Inr None"
| "get_prop (JArr xs) k = Inr None"

definition field :: "json \<Rightarrow> string \<Rightarrow> json option" where
  "field j k = (case get_prop j k of Inl e \<Rightarrow> None | Inr v \<Rightarrow> v)"

fun truthy :: "json option \<Rightarrow> bool" where
  "truthy None = False"
| "truthy (Some JNull) = False"
| "truthy (Some (JBool b)) = b"
| "truthy (Some (JNum n)) = (n \<noteq> 0)"
| "truthy (Some (JStr t)) = (t \<noteq> [])"
| "truthy (Some (JArr xs)) = True"
| "truthy (Some (JObj kvs)) = True"

fun is_string :: "json option \<Rightarrow> bool" where
  "is_string (Some (JStr t)) = True"
| "is_string v = False"

fun is_array :: "json option \<Rightarrow> bool" where
  "is_array (Some (JArr xs)) = True"
| "is_array v = False"

fun str_of :: "json option \<Rightarrow> string" where
  "str_of (Some (JStr t)) = t"
| "str_of v = []"

fun arr_of :: "json option \<Rightarrow> json list" where
  "arr_of (Some (JArr xs)) = xs"
| "arr_of v = []"

fun str_or_null :: "json option \<Rightarrow> string option" where
  "str_or_null (Some (JStr t)) = Some t"
| "str_or_null v = None"

text \<open>
  A validated rule, with the fields the engine reads given their validated types.
  \<open>r_replacement = None\<close> is the source's \<open>replacement: null\<close>.
\<close>

record rule =
  r_id :: string
  r_name :: string
  r_description :: "json option"
  r_pattern :: string
  r_replacement :: "string option"
  r_fileTypes :: "json list"
  r_severity :: string

definition rule_of :: "json \<Rightarrow> rule" where
  "rule_of j =
     \<lparr>r_id = str_of (field j ''id''), r_name = str_of (field j ''name''),
      r_description = field j ''description'', r_pattern = str_of (field j ''pattern''),
      r_replacement = str_or_null (field j ''replacement''),
      r_fileTypes = arr_of (field j ''fileTypes''), r_severity = str_of (field j ''severity'')\<rparr>"

definition requiredFields :: "string list" where
  "requiredFields = [''id'', ''name'', ''description'', ''pattern'', ''fileTypes'', ''severity'']"

text \<open>The loop over the required fields: the first failure, if any.\<close>

fun check_required :: "json \<Rightarrow> string list \<Rightarrow> string option" where
  "check_required j [] = None"
| "check_required j (f # fs) =
     (case get_prop j f of
        Inl e \<Rightarrow> Some e
      | Inr v \<Rightarrow>
          if \<not> truthy v
          then Some (''Rule validation failed: missing required field \"'' @ f @ ''\"'')
          else check_required j fs)"

definition validateRule :: "json \<Rightarrow> string + rule" where
  "validateRule j =
     (case check_required j requiredFields of
        Some e \<Rightarrow> Inl e
      | None \<Rightarrow>
          if \<not> is_string (field j ''id'')
            then Inl ''Rule validation failed: \"id\" must be a string''
          else if \<not> is_string (field j ''name'')
            then Inl ''Rule validation failed: \"name\" must be a string''
          else if \<not> is_string (field j ''pattern'')
            then Inl ''Rule validation failed: \"pattern\" must be a string''
          else if \<not> is_array (field j ''fileTypes'')
            then Inl ''Rule validation failed: \"fileTypes\" must be an array''
          else if field j ''severity''
                    \<notin> set [Some (JStr ''error''), Some (JStr ''warning''), Some (JStr ''info'')]
            then Inl (''Rule validation failed: \"severity\" must be one of: ''
                      @ ''error, warning, info'')
          else if field j ''replacement'' \<noteq> Some JNull \<and> \<not> is_string (field j ''replacement'')
            then Inl ''Rule validation failed: \"replacement\" must be a string or null''
          else Inr (rule_of j))"

subsection \<open>Loading\<close>

text \<open>
  The engine's state.  \<open>compiledRules\<close> is the source's \<open>Map\<close> from rule id to compiled
  expression.  The error handler is optional (\<open>options.errorHandler || null\<close>); the
  engine returns it updated.
\<close>

record 'rx rule_engine =
  rulesPath :: string
  rules :: "rule list"
  compiledRules :: "string \<rightharpoonup> 'rx"
  errorHandler :: "error_handler option"

text \<open>What is found at \<open>rulesPath\<close>: nothing, text that is not JSON, or a JSON value.\<close>

datatype rules_file = NoFile | NotJson string | Parsed json

fun load_rules_loop ::
  "'rx regex_engine \<Rightarrow> 'rx rule_engine \<Rightarrow> json list \<Rightarrow> (string + unit) \<times> 'rx rule_engine" where
  "load_rules_loop E eng [] = (Inr (), eng)"
| "load_rules_loop E eng (j # js) =
     (case validateRule j of
        Inl e \<Rightarrow> (Inl e, eng)
      | Inr r \<Rightarrow>
          (let eng1 = eng\<lparr>rules := rules eng @ [r]\<rparr> in
           case compile E (r_pattern r) True of
             Inr rx \<Rightarrow>
               load_rules_loop E (eng1\<lparr>compiledRules := (compiledRules eng1)(r_id r \<mapsto> rx)\<rparr>) js
           | Inl msg \<Rightarrow>
               (case errorHandler eng1 of
                  Some h \<Rightarrow>
                    load_rules_loop E
                      (eng1\<lparr>errorHandler :=
                         Some (snd (handleInvalidRegexError h (r_id r) (r_pattern r) msg))\<rparr>) js
                | None \<Rightarrow>
                    (Inl (''Invalid regex pattern in rule \"'' @ r_id r @ ''\": '' @ msg),
                     eng1))))"

definition loadRules ::
  "'rx regex_engine \<Rightarrow> 'rx rule_engine \<Rightarrow> rules_file \<Rightarrow> (string + unit) \<times> 'rx rule_engine" where
  "loadRules E eng file =
     (case file of
        NoFile \<Rightarrow> (Inl (''Rules file not found: '' @ rulesPath eng), eng)
      | NotJson msg \<Rightarrow> (Inl (''Invalid JSON in rules file: '' @ msg), eng)
      | Parsed cfg \<Rightarrow>
          (case get_prop cfg ''rules'' of
             Inl e \<Rightarrow> (Inl e, eng)
           | Inr v \<Rightarrow>
               if is_array v
               then load_rules_loop E (eng\<lparr>rules := [], compiledRules := Map.empty\<rparr>) (arr_of v)
               else (Inl ''Invalid rules file: missing or invalid \"rules\" array'', eng)))"

definition new_RuleEngine :: "string \<Rightarrow> error_handler option \<Rightarrow> 'rx rule_engine" where
  "new_RuleEngine path h =
     \<lparr>rulesPath = path, rules = [], compiledRules = Map.empty, errorHandler = h\<rparr>"

subsection \<open>Scanning\<close>

text \<open>
  A finding.  \<open>replacement = None\<close> is \<open>null\<close>; \<open>pattern = None\<close> is a finding that carries
  no pattern (the rule engine always sets it, other callers of the fixer need not).
\<close>

record finding =
  ruleId :: string
  ruleName :: string
  description :: "json option"
  filePath :: string
  lineNumber :: int
  columnNumber :: int
  matchedText :: string
  severity :: string
  fixable :: bool
  replacement :: "string option"
  pattern :: "string option"

definition make_finding :: "rule \<Rightarrow> string \<Rightarrow> string \<Rightarrow> regex_match \<Rightarrow> finding" where
  "make_finding r path content m =
     (let beforeMatch = take (m_index m) content in
      \<lparr>ruleId = r_id r, ruleName = r_name r, description = r_description r,
       filePath = path,
       lineNumber = int (length (split_newline beforeMatch)),
       columnNumber = int (length beforeMatch) - lastIndexOf beforeMatch newline,
       matchedText = m_text m, severity = r_severity r,
       fixable = (r_replacement r \<noteq> None), replacement = r_replacement r,
       pattern = Some (r_pattern r)\<rparr>)"

definition maxIterations :: nat where
  "maxIterations = 10000"

definition too_many_matches :: string where
  "too_many_matches = ''Too many regex matches (10000+) - possible infinite loop''"

text \<open>
  The \<open>while\<close> loop of \<open>applyRuleWithTimeout\<close>, with the expression's \<open>lastIndex\<close>, the
  iteration counter and the findings so far.  The promise is rejected (\<open>Inl\<close>) on the
  iteration after the cap; the cap is what bounds the loop.
\<close>

function scan_loop ::
  "'rx regex_engine \<Rightarrow> 'rx \<Rightarrow> string \<Rightarrow> rule \<Rightarrow> string \<Rightarrow> nat \<Rightarrow> nat \<Rightarrow> finding list
     \<Rightarrow> string + finding list" where
  "scan_loop E rx content r path lastIndex iterations findings =
     (case regexp_exec E rx content lastIndex of
        None \<Rightarrow> Inr findings
      | Some m \<Rightarrow>
          if maxIterations < iterations + 1 then Inl too_many_matches
          else scan_loop E rx content r path (next_index m) (iterations + 1)
                 (findings @ [make_finding r path content m]))"
  by pat_completeness auto
termination
  by (relation "measure (\<lambda>(E, rx, content, r, path, lastIndex, iterations, findings).
        Suc maxIterations - iterations)") auto

declare scan_loop.simps [simp del]

text \<open>
  \<open>applyRuleWithTimeout\<close>, called with the compiled expression and its \<open>lastIndex\<close>.  With
  an error handler the loop runs under \<open>withTimeout\<close>; the loop is synchronous and has
  settled the promise before the timer can fire, so the outcome is the loop's either way.
\<close>

definition applyRuleWithTimeout ::
  "'rx regex_engine \<Rightarrow> 'rx \<Rightarrow> nat \<Rightarrow> string \<Rightarrow> rule \<Rightarrow> string \<Rightarrow> string + finding list" where
  "applyRuleWithTimeout E rx lastIndex content r path =
     scan_loop E rx content r path lastIndex 0 []"

text \<open>
  The loop of \<open>applyRules\<close> over the loaded rules, with the findings so far and the error
  handler.  A rule that does not apply to the extension or has no compiled expression is
  skipped; a rule whose scan is rejected is reported to the error handler, if there is
  one, and the loop goes on.
\<close>

fun applyRules_loop ::
  "'rx regex_engine \<Rightarrow> (string \<rightharpoonup> 'rx) \<Rightarrow> string \<Rightarrow> string \<Rightarrow> string \<Rightarrow> rule list
     \<Rightarrow> finding list \<Rightarrow> error_handler option \<Rightarrow> finding list \<times> error_handler option" where
  "applyRules_loop E compiled content path ext [] findings h = (findings, h)"
| "applyRules_loop E compiled content path ext (r # rs) findings h =
     (if JStr ext \<notin> set (r_fileTypes r)
      then applyRules_loop E compiled content path ext rs findings h
      else (case compiled (r_id r) of
              None \<Rightarrow> applyRules_loop E compiled content path ext rs findings h
            | Some rx \<Rightarrow>
                (case applyRuleWithTimeout E rx 0 content r path of
                   Inr ruleFindings \<Rightarrow>
                     applyRules_loop E compiled content path ext rs (findings @ ruleFindings) h
                 | Inl msg \<Rightarrow>
                     applyRules_loop E compiled content path ext rs findings
                       (case h of
                          None \<Rightarrow> None
                        | Some eh \<Rightarrow>
                            if str_includes msg ''timed out''
                            then Some (snd (handleRegexTimeoutError eh (r_id r) path))
                            else Some (snd (handleUnknownError eh ''rule application'' msg))))))"

definition applyRules ::
  "'rx regex_engine \<Rightarrow> 'rx rule_engine \<Rightarrow> string \<Rightarrow> string \<Rightarrow> string
     \<Rightarrow> finding list \<times> 'rx rule_engine" where
  "applyRules E eng content path ext =
     (case applyRules_loop E (compiledRules eng) content path ext (rules eng) []
             (errorHandler eng) of
        (findings, h) \<Rightarrow> (findings, eng\<lparr>errorHandler := h\<rparr>))"

section \<open>Fixer (lib/fixer.js)\<close>

subsection \<open>The file system\<close>

text \<open>
  The file system as the fixer sees it: a path holds a regular file (its content and
  whether this process may read and write it) or a directory (whether it may be written
  to), or nothing.  An operation answers the system's error message (\<open>Inl\<close>) or its
  result.  Paths are taken as absolute and normalised, so \<open>path.resolve\<close> is the identity;
  parent directories and file times are not modelled.  Only regular files are copied.
\<close>

datatype node = File string bool bool | Dir bool

type_synonym filesystem = "string \<rightharpoonup> node"

definition fs_access_read :: "filesystem \<Rightarrow> string \<Rightarrow> string + unit" where
  "fs_access_read fs p =
     (case fs p of
        None \<Rightarrow> Inl ''ENOENT: no such file or directory''
      | Some (File c r w) \<Rightarrow> if r then Inr () else Inl ''EACCES: permission denied''
      | Some (Dir w) \<Rightarrow> Inr ())"

definition fs_access_write :: "filesystem \<Rightarrow> string \<Rightarrow> string + unit" where
  "fs_access_write fs p =
     (case fs p of
        None \<Rightarrow> Inl ''ENOENT: no such file or directory''
      | Some (File c r w) \<Rightarrow> if w then Inr () else Inl ''EACCES: permission denied''
      | Some (Dir w) \<Rightarrow> if w then Inr () else Inl ''EACCES: permission denied'')"

fun isFile :: "node option \<Rightarrow> bool" where
  "isFile (Some (File c r w)) = True"
| "isFile n = False"

definition fs_ensureDir :: "filesystem \<Rightarrow> string \<Rightarrow> string + filesystem" where
  "fs_ensureDir fs d =
     (case fs d of
        None \<Rightarrow> Inr (fs(d \<mapsto> Dir True))
      | Some (Dir w) \<Rightarrow> Inr fs
      | Some (File c r w) \<Rightarrow> Inl ''EEXIST: file already exists'')"

definition fs_readFile :: "filesystem \<Rightarrow> string \<Rightarrow> string + string" where
  "fs_readFile fs p =
     (case fs p of
        None \<Rightarrow> Inl ''ENOENT: no such file or directory''
      | Some (Dir w) \<Rightarrow> Inl ''EISDIR: illegal operation on a directory''
      | Some (File c r w) \<Rightarrow> if r then Inr c else Inl ''EACCES: permission denied'')"

definition fs_writeFile :: "filesystem \<Rightarrow> string \<Rightarrow> string \<Rightarrow> string + filesystem" where
  "fs_writeFile fs p content =
     (case fs p of
        None \<Rightarrow> Inr (fs(p \<mapsto> File content True True))
      | Some (Dir w) \<Rightarrow> Inl ''EISDIR: illegal operation on a directory''
      | Some (File c r w) \<Rightarrow>
          if w then Inr (fs(p \<mapsto> File content r w)) else Inl ''EACCES: permission denied'')"

text \<open>
  \<open>fs.copy(src, dest, {overwrite})\<close> of fs-extra for a regular file: an existing
  destination file is replaced when \<open>overwrite\<close> is set and silently kept otherwise; the
  copy carries the source's content and permissions.
\<close>

definition fs_copy :: "filesystem \<Rightarrow> string \<Rightarrow> string \<Rightarrow> bool \<Rightarrow> string + filesystem" where
  "fs_copy fs src dest overwrite =
     (case fs src of
        None \<Rightarrow> Inl ''ENOENT: no such file or directory''
      | Some (Dir w) \<Rightarrow> Inl ''EISDIR: illegal operation on a directory''
      | Some (File c r w) \<Rightarrow>
          if \<not> r then Inl ''EACCES: permission denied''
          else if dest = src then Inl ''Source and destination must not be the same.''
          else (case fs dest of
                  None \<Rightarrow> Inr (fs(dest \<mapsto> File c r w))
                | Some (Dir dw) \<Rightarrow> Inl ''Cannot overwrite directory with non-directory''
                | Some (File c' r' w') \<Rightarrow>
                    if overwrite then Inr (fs(dest \<mapsto> File c r w)) else Inr fs))"

definition path_join :: "string \<Rightarrow> string \<Rightarrow> string" where
  "path_join dir name = (if dir = ''/'' then dir @ name else dir @ ''/'' @ name)"

subsection \<open>The fixer's state\<close>

text \<open>
  \<open>backupRegistry\<close> is the source's \<open>Map\<close> from file path to backup path, in insertion
  order (\<open>AList.update\<close> is \<open>Map.set\<close>: an existing key keeps its place); \<open>fixedFiles\<close> is
  its \<open>Set\<close>.  \<open>maxBackupAge\<close> is only read by the clean-up of old backups and is left out.
\<close>

record fixer_options =
  backupDir :: string
  createTimestampedBackups :: bool
  dryRun :: bool

record fixer =
  options :: fixer_options
  backupRegistry :: "(string \<times> string) list"
  fixedFiles :: "string set"

definition new_Fixer :: "fixer_options \<Rightarrow> fixer" where
  "new_Fixer opts = \<lparr>options = opts, backupRegistry = [], fixedFiles = {}\<rparr>"

subsection \<open>Backups\<close>

definition checkDiskSpace :: "filesystem \<Rightarrow> string \<Rightarrow> string \<Rightarrow> string + unit" where
  "checkDiskSpace fs path dir =
     (case fs path of
        None \<Rightarrow>
          Inl (''Insufficient disk space or permissions for backup: ''
               @ ''ENOENT: no such file or directory'')
      | Some n \<Rightarrow>
          (case fs_access_write fs dir of
             Inl e \<Rightarrow> Inl (''Insufficient disk space or permissions for backup: '' @ e)
           | Inr u \<Rightarrow> Inr ()))"

definition backupName :: "fixer_options \<Rightarrow> string \<Rightarrow> string \<Rightarrow> string" where
  "backupName opts timestamp path =
     (if createTimestampedBackups opts then basename path @ ''.'' @ timestamp @ ''.backup''
      else basename path @ ''.backup'')"

definition backup_failed :: "string \<Rightarrow> string \<Rightarrow> string" where
  "backup_failed path e = ''Failed to create backup for '' @ path @ '': '' @ e"

text \<open>
  \<open>createBackup\<close>.  \<open>timestamp\<close> is what the clock reads at this call, as the source
  formats it (\<open>toISOString\<close> with \<open>:\<close> and \<open>.\<close> replaced by \<open>-\<close>).  The result is the backup
  path or the error thrown, with the fixer and the file system as the call leaves them.
\<close>

definition createBackup ::
  "fixer \<Rightarrow> filesystem \<Rightarrow> string \<Rightarrow> string \<Rightarrow> (string + string) \<times> fixer \<times> filesystem" where
  "createBackup fx fs timestamp path =
     (case fs_access_read fs path of
        Inl e \<Rightarrow> (Inl (backup_failed path e), fx, fs)
      | Inr u \<Rightarrow>
          if \<not> isFile (fs path)
          then (Inl (backup_failed path (''Cannot backup non-file: '' @ path)), fx, fs)
          else (case fs_ensureDir fs (backupDir (options fx)) of
                  Inl e \<Rightarrow> (Inl (backup_failed path e), fx, fs)
                | Inr fs1 \<Rightarrow>
                    (let backupPath =
                           path_join (backupDir (options fx))
                             (backupName (options fx) timestamp path)
                     in case checkDiskSpace fs1 path (backupDir (options fx)) of
                          Inl e \<Rightarrow> (Inl (backup_failed path e), fx, fs1)
                        | Inr u \<Rightarrow>
                            (case fs_copy fs1 path backupPath False of
                               Inl e \<Rightarrow> (Inl (backup_failed path e), fx, fs1)
                             | Inr fs2 \<Rightarrow>
                                 (Inr backupPath,
                                  fx\<lparr>backupRegistry :=
                                       AList.update path backupPath (backupRegistry fx)\<rparr>,
                                  fs2)))))"

subsection \<open>Fixing one file\<close>

text \<open>The replacement handed to \<open>replace\<close>; \<open>null\<close> is converted to the string \<open>null\<close>.\<close>

definition replacement_text :: "finding \<Rightarrow> string" where
  "replacement_text f = (case replacement f of None \<Rightarrow> ''null'' | Some r \<Rightarrow> r)"

definition applyPatternReplacement :: "'rx regex_engine \<Rightarrow> string \<Rightarrow> finding \<Rightarrow> string" where
  "applyPatternReplacement E content f =
     (case pattern f of
        None \<Rightarrow> replace_string content (matchedText f) (replacement_text f)
      | Some p \<Rightarrow>
          if p = [] then replace_string content (matchedText f) (replacement_text f)
          else (case compile E p False of
                  Inr rx \<Rightarrow> replace_regex E rx content (replacement_text f)
                | Inl e \<Rightarrow> replace_string content (matchedText f) (replacement_text f)))"

text \<open>
  \<open>findings.sort(...)\<close> with the source's comparator: by line, then by column, both
  descending; the sort is stable.
\<close>

definition sort_findings :: "finding list \<Rightarrow> finding list" where
  "sort_findings fs = sort_key (\<lambda>f. (- lineNumber f, - columnNumber f)) fs"

text \<open>The loop over the sorted findings: the content and the counter so far.\<close>

fun apply_findings :: "'rx regex_engine \<Rightarrow> string \<Rightarrow> nat \<Rightarrow> finding list \<Rightarrow> string \<times> nat" where
  "apply_findings E content n [] = (content, n)"
| "apply_findings E content n (f # fs) =
     (let modified = applyPatternReplacement E content f
      in apply_findings E modified (if modified \<noteq> content then n + 1 else n) fs)"

record fix_file_result =
  ff_patternsReplaced :: nat
  ff_originalSize :: nat
  ff_modifiedSize :: nat

definition fix_failed :: "string \<Rightarrow> string \<Rightarrow> string" where
  "fix_failed path e = ''Failed to fix file '' @ path @ '': '' @ e"

definition fixFile ::
  "'rx regex_engine \<Rightarrow> fixer \<Rightarrow> filesystem \<Rightarrow> string \<Rightarrow> finding list
     \<Rightarrow> (string + fix_file_result) \<times> filesystem" where
  "fixFile E fx fs path findings =
     (case fs_readFile fs path of
        Inl e \<Rightarrow> (Inl (fix_failed path e), fs)
      | Inr originalContent \<Rightarrow>
          (case apply_findings E originalContent 0 (sort_findings findings) of
             (modifiedContent, n) \<Rightarrow>
               (let result = \<lparr>ff_patternsReplaced = n,
                              ff_originalSize = length originalContent,
                              ff_modifiedSize = length modifiedContent\<rparr>
                in if \<not> dryRun (options fx) \<and> modifiedContent \<noteq> originalContent
                   then (case fs_writeFile fs path modifiedContent of
                           Inl e \<Rightarrow> (Inl (fix_failed path e), fs)
                         | Inr fs' \<Rightarrow> (Inr result, fs'))
                   else (Inr result, fs))))"

subsection \<open>Restoring\<close>

record error_info =
  err_filePath :: string
  err_error :: string

record restore_results =
  filesRestored :: nat
  restore_errors :: "error_info list"

fun restoreFromBackup ::
  "fixer \<Rightarrow> filesystem \<Rightarrow> string list \<Rightarrow> restore_results
     \<Rightarrow> restore_results \<times> fixer \<times> filesystem" where
  "restoreFromBackup fx fs [] res = (res, fx, fs)"
| "restoreFromBackup fx fs (p # ps) res =
     (case map_of (backupRegistry fx) p of
        None \<Rightarrow>
          restoreFromBackup fx fs ps
            (res\<lparr>restore_errors := restore_errors res
                    @ [\<lparr>err_filePath = p, err_error = ''No backup found for '' @ p\<rparr>]\<rparr>)
      | Some b \<Rightarrow>
          if b = [] then
            restoreFromBackup fx fs ps
              (res\<lparr>restore_errors := restore_errors res
                      @ [\<lparr>err_filePath = p, err_error = ''No backup found for '' @ p\<rparr>]\<rparr>)
          else if fs b = None then
            restoreFromBackup fx fs ps
              (res\<lparr>restore_errors := restore_errors res
                      @ [\<lparr>err_filePath = p, err_error = ''Backup file not found: '' @ b\<rparr>]\<rparr>)
          else (case fs_copy fs b p True of
                  Inl e \<Rightarrow>
                    restoreFromBackup fx fs ps
                      (res\<lparr>restore_errors := restore_errors res
                              @ [\<lparr>err_filePath = p, err_error = e\<rparr>]\<rparr>)
                | Inr fs' \<Rightarrow>
                    restoreFromBackup (fx\<lparr>fixedFiles := fixedFiles fx - {p}\<rparr>) fs' ps
                      (res\<lparr>filesRestored := filesRestored res + 1\<rparr>)))"

definition rollbackChanges :: "fixer \<Rightarrow> filesystem \<Rightarrow> restore_results \<times> fixer \<times> filesystem" where
  "rollbackChanges fx fs =
     (case restoreFromBackup fx fs (map fst (backupRegistry fx))
             \<lparr>filesRestored = 0, restore_errors = []\<rparr> of
        (res, fx', fs') \<Rightarrow> (res, fx'\<lparr>backupRegistry := [], fixedFiles := {}\<rparr>, fs'))"

subsection \<open>Grouping the findings\<close>

text \<open>
  \<open>grouped\<close> is a plain object used as a dictionary.  A file path that names a property
  every object inherits is found there by \<open>grouped[path]\<close>, is not an array, and the
  \<open>push\<close> throws a \<open>TypeError\<close>.  Otherwise the findings are appended to their path's
  array, a new path being added after the others.
\<close>

definition inherited_keys :: "string list" where
  "inherited_keys =
     [''constructor'', ''__defineGetter__'', ''__defineSetter__'', ''hasOwnProperty'',
      ''__lookupGetter__'', ''__lookupSetter__'', ''isPrototypeOf'', ''propertyIsEnumerable'',
      ''toString'', ''valueOf'', ''__proto__'', ''toLocaleString'']"

fun group_loop ::
  "finding list \<Rightarrow> (string \<times> finding list) list \<Rightarrow> string + (string \<times> finding list) list" where
  "group_loop [] grouped = Inr grouped"
| "group_loop (f # fs) grouped =
     (if filePath f \<in> set inherited_keys
      then Inl ''grouped[finding.filePath].push is not a function''
      else (case map_of grouped (filePath f) of
              None \<Rightarrow> group_loop fs (grouped @ [(filePath f, [f])])
            | Some l \<Rightarrow> group_loop fs (AList.update (filePath f) (l @ [f]) grouped)))"

definition groupFindingsByFile :: "finding list \<Rightarrow> string + (string \<times> finding list) list" where
  "groupFindingsByFile findings = group_loop findings []"

text \<open>
  \<open>Object.entries\<close>: the keys that are array indices (canonical decimal numbers below
  \<open>2^32 - 1\<close>) come first, in numeric order, then the other keys in insertion order.
\<close>

definition dec_value :: "string \<Rightarrow> nat" where
  "dec_value k = foldl (\<lambda>n c. 10 * n + digit_val c) 0 k"

definition is_array_index :: "string \<Rightarrow> bool" where
  "is_array_index k =
     (k \<noteq> [] \<and> list_all is_digit k \<and> (k = ''0'' \<or> hd k \<noteq> CHR ''0'')
      \<and> length k \<le> 10 \<and> dec_value k < 4294967295)"

definition object_entries :: "(string \<times> 'a) list \<Rightarrow> (string \<times> 'a) list" where
  "object_entries obj =
     sort_key (\<lambda>e. dec_value (fst e)) (filter (\<lambda>e. is_array_index (fst e)) obj)
     @ filter (\<lambda>e. \<not> is_array_index (fst e)) obj"

subsection \<open>applyFixes\<close>

text \<open>
  The options of one call and its result.  The time stamp the source adds to an entry of
  \<open>errors\<close> is left out.
\<close>

record fix_options =
  backupBeforeFix :: bool
  continueOnError :: bool

record fix_results =
  filesProcessed :: nat
  filesFixed :: nat
  patternsReplaced :: nat
  errors :: "error_info list"
  backupsCreated :: "string list"
  res_fixedFiles :: "string list"

definition empty_results :: fix_results where
  "empty_results =
     \<lparr>filesProcessed = 0, filesFixed = 0, patternsReplaced = 0, errors = [],
      backupsCreated = [], res_fixedFiles = []\<rparr>"

text \<open>
  The body of the inner \<open>try\<close> for one file: the error thrown in it, if any, and the
  results, the fixer and the file system as it leaves them.
\<close>

definition file_step ::
  "'rx regex_engine \<Rightarrow> fix_options \<Rightarrow> string \<Rightarrow> string \<times> finding list
     \<Rightarrow> fix_results \<Rightarrow> fixer \<Rightarrow> filesystem
     \<Rightarrow> string option \<times> fix_results \<times> fixer \<times> filesystem" where
  "file_step E opts timestamp entry res fx fs =
     (let res1 = res\<lparr>filesProcessed := filesProcessed res + 1\<rparr>;
          backup =
            (if backupBeforeFix opts \<and> \<not> dryRun (options fx)
             then (case createBackup fx fs timestamp (fst entry) of
                     (Inl e, fx', fs') \<Rightarrow> (Some e, res1, fx', fs')
                   | (Inr b, fx', fs') \<Rightarrow>
                       (None, res1\<lparr>backupsCreated := backupsCreated res1 @ [b]\<rparr>, fx', fs'))
             else (None, res1, fx, fs))
      in case backup of
           (Some e, res2, fx2, fs2) \<Rightarrow> (Some e, res2, fx2, fs2)
         | (None, res2, fx2, fs2) \<Rightarrow>
             (case fixFile E fx2 fs2 (fst entry) (snd entry) of
                (Inl e, fs3) \<Rightarrow> (Some e, res2, fx2, fs3)
              | (Inr r, fs3) \<Rightarrow>
                  if 0 < ff_patternsReplaced r
                  then (None,
                        res2\<lparr>filesFixed := filesFixed res2 + 1,
                             patternsReplaced := patternsReplaced res2 + ff_patternsReplaced r,
                             res_fixedFiles := res_fixedFiles res2 @ [fst entry]\<rparr>,
                        fx2\<lparr>fixedFiles := insert (fst entry) (fixedFiles fx2)\<rparr>, fs3)
                  else (None, res2, fx2, fs3)))"

text \<open>
  The \<open>for\<close> loop over the files, with its \<open>catch\<close>.  \<open>clock k\<close> is the time stamp read for
  the \<open>k\<close>-th file of the call.  The first component is the error thrown out of the loop.
\<close>

fun process_files ::
  "'rx regex_engine \<Rightarrow> fix_options \<Rightarrow> (nat \<Rightarrow> string) \<Rightarrow> nat \<Rightarrow> (string \<times> finding list) list
     \<Rightarrow> fix_results \<Rightarrow> fixer \<Rightarrow> filesystem
     \<Rightarrow> string option \<times> fix_results \<times> fixer \<times> filesystem" where
  "process_files E opts clock k [] res fx fs = (None, res, fx, fs)"
| "process_files E opts clock k (entry # entries) res fx fs =
     (case file_step E opts (clock k) entry res fx fs of
        (None, res', fx', fs') \<Rightarrow> process_files E opts clock (Suc k) entries res' fx' fs'
      | (Some e, res', fx', fs') \<Rightarrow>
          (let res'' = res'\<lparr>errors := errors res'
                              @ [\<lparr>err_filePath = fst entry, err_error = e\<rparr>]\<rparr>
           in if \<not> continueOnError opts
              then (Some (''Fix operation failed for '' @ fst entry @ '': '' @ e),
                    res'', fx', fs')
              else process_files E opts clock (Suc k) entries res'' fx' fs'))"

definition is_fixable :: "finding \<Rightarrow> bool" where
  "is_fixable f = (fixable f \<and> replacement f \<noteq> None)"

text \<open>
  \<open>applyFixes\<close>: the results (\<open>Inr\<close>) or the error thrown (\<open>Inl\<close>), with the fixer and the
  file system as the call leaves them.  An error thrown out of the loop is rethrown after
  \<open>rollbackChanges\<close>, which runs when this call has created a backup.
\<close>

definition applyFixes ::
  "'rx regex_engine \<Rightarrow> fix_options \<Rightarrow> (nat \<Rightarrow> string) \<Rightarrow> fixer \<Rightarrow> filesystem \<Rightarrow> finding list
     \<Rightarrow> (string + fix_results) \<times> fixer \<times> filesystem" where
  "applyFixes E opts clock fx fs findings =
     (let fixableFindings = filter is_fixable findings in
      if fixableFindings = [] then (Inr empty_results, fx, fs)
      else (case groupFindingsByFile fixableFindings of
              Inl e \<Rightarrow> (Inl e, fx, fs)
            | Inr findingsByFile \<Rightarrow>
                (case process_files E opts clock 0 (object_entries findingsByFile)
                        empty_results fx fs of
                   (None, res, fx', fs') \<Rightarrow> (Inr res, fx', fs')
                 | (Some e, res, fx', fs') \<Rightarrow>
                     if backupsCreated res \<noteq> []
                     then (case rollbackChanges fx' fs' of
                             (r, fx'', fs'') \<Rightarrow> (Inl e, fx'', fs''))
                     else (Inl e, fx', fs'))))"

section \<open>Scenarios\<close>

text \<open>
  A rule as it stands in a rules file, for the file type \<open>js\<close>, and an engine that has
  loaded a list of such rules with the pattern fragment above and an error handler.
\<close>

definition rule_json :: "string \<Rightarrow> string \<Rightarrow> json \<Rightarrow> json" where
  "rule_json i p rep =
     JObj [(''id'', JStr i), (''name'', JStr i), (''description'', JStr i),
           (''pattern'', JStr p), (''replacement'', rep),
           (''fileTypes'', JArr [JStr ''js'']), (''severity'', JStr ''warning'')]"

definition load_js :: "json list \<Rightarrow> js_item list rule_engine" where
  "load_js rs =
     snd (loadRules js_engine (new_RuleEngine ''rules.json'' (Some new_ErrorHandler))
            (Parsed (JObj [(''rules'', JArr rs)])))"

text \<open>The pattern \<open>\bvar\s+\w+\<close> and the text \<open>a\nb\nvar x=1;\<close>.\<close>

definition var_decl_pattern :: string where
  "var_decl_pattern = backslash # ''bvar'' @ backslash # ''s+'' @ backslash # ''w+''"

definition position_content :: string where
  "position_content = ''a'' @ [newline] @ ''b'' @ [newline] @ ''var x=1;''"

subsection \<open>Replacement without a usable pattern\<close>

text \<open>\<open>t\<close> occurs in \<open>s\<close> at offset \<open>i\<close>.\<close>

definition occurs_at :: "string \<Rightarrow> string \<Rightarrow> nat \<Rightarrow> bool" where
  "occurs_at s t i = (i \<le> length s \<and> take (length t) (drop i s) = t)"

text \<open>A finding as a caller of the fixer may build it, with or without a pattern.\<close>

definition plain_finding :: "string \<Rightarrow> string \<Rightarrow> string option \<Rightarrow> finding" where
  "plain_finding t r p =
     \<lparr>ruleId = ''rule'', ruleName = ''rule'', description = None, filePath = ''/p/a.js'',
      lineNumber = 1, columnNumber = 1, matchedText = t, severity = ''warning'',
      fixable = True, replacement = Some r, pattern = p\<rparr>"

subsection \<open>The dry-run scenario\<close>

text \<open>
  The rule \<open>\bvar\b\<close> to \<open>const\<close>, the two-line text \<open>var x = 1;\nvar y = 2;\<close> in the file
  \<open>/p/a.js\<close>, and the findings of scanning it.
\<close>

definition var_word_pattern :: string where
  "var_word_pattern = backslash # ''bvar'' @ backslash # ''b''"

definition var_content :: string where
  "var_content = ''var x = 1;'' @ [newline] @ ''var y = 2;''"

definition var_findings :: "finding list" where
  "var_findings =
     fst (applyRules js_engine (load_js [rule_json ''var-to-const'' var_word_pattern (JStr ''const'')])
            var_content ''/p/a.js'' ''js'')"

definition var_fs :: filesystem where
  "var_fs = [''/p/a.js'' \<mapsto> File var_content True True]"

text \<open>A fresh fixer, dry-run or not; the options' defaults; a clock that stands still.\<close>

definition fixer_in :: "bool \<Rightarrow> fixer" where
  "fixer_in dry =
     new_Fixer \<lparr>backupDir = ''/p/.backups'', createTimestampedBackups = True, dryRun = dry\<rparr>"

definition default_fix_options :: fix_options where
  "default_fix_options = \<lparr>backupBeforeFix = True, continueOnError = True\<rparr>"

definition fixed_clock :: "nat \<Rightarrow> string" where
  "fixed_clock k = ''2025-08-14T15-55-15-707Z''"

text \<open>
  What is looked at after a call: its outcome, the backup registry, and what the file
  system holds at the given paths.
\<close>

definition observe ::
  "(string + fix_results) \<times> fixer \<times> filesystem \<Rightarrow> string list
     \<Rightarrow> (string + fix_results) \<times> (string \<times> string) list \<times> node option list" where
  "observe out paths =
     (case out of (r, fx, fs) \<Rightarrow> (r, backupRegistry fx, map fs paths))"

subsection \<open>The order of the substitutions in one file\<close>

text \<open>
  The order as the specification words it, to compare the fixer with: for each rule of
  the loaded rule set, in its order, that has a fixable finding in the file, one global
  substitution of the rule's pattern by its replacement over the current content.
\<close>

definition spec_fix_in_rule_order ::
  "'rx regex_engine \<Rightarrow> rule list \<Rightarrow> finding list \<Rightarrow> string \<Rightarrow> string" where
  "spec_fix_in_rule_order E rs findings content =
     foldl (\<lambda>c r. case r_replacement r of
                     None \<Rightarrow> c
                   | Some rep \<Rightarrow>
                       (case compile E (r_pattern r) False of
                          Inl e \<Rightarrow> c
                        | Inr rx \<Rightarrow> replace_regex E rx c rep))
       content
       (filter (\<lambda>r. r_id r \<in> set (map ruleId (filter is_fixable findings))) rs)"

text \<open>
  Two rules, \<open>a\<close> to \<open>b\<close> loaded before \<open>b\<close> to \<open>c\<close>, and the two-line text \<open>a\nb\<close> in
  \<open>/p/a.js\<close>: each rule has one finding, the first rule's on line 1, the second's on
  line 2.
\<close>

definition chain_rules :: "json list" where
  "chain_rules = [rule_json ''a-to-b'' ''a'' (JStr ''b''), rule_json ''b-to-c'' ''b'' (JStr ''c'')]"

definition chain_content :: string where
  "chain_content = ''a'' @ [newline] @ ''b''"

definition chain_findings :: "finding list" where
  "chain_findings = fst (applyRules js_engine (load_js chain_rules) chain_content ''/p/a.js'' ''js'')"

definition chain_fs :: filesystem where
  "chain_fs = [''/p/a.js'' \<mapsto> File chain_content True True]"

text \<open>The position of \<open>a\<close> is not before the position of \<open>b\<close>.\<close>

definition position_ge :: "finding \<Rightarrow> finding \<Rightarrow> bool" where
  "position_ge a b =
     (lineNumber b < lineNumber a \<or> (lineNumber b = lineNumber a \<and> columnNumber b \<le> columnNumber a))"

text \<open>The finding stands at line \<open>l\<close>, column \<open>c\<close>.\<close>

definition at_position :: "int \<Rightarrow> int \<Rightarrow> finding \<Rightarrow> bool" where
  "at_position l c f = (lineNumber f = l \<and> columnNumber f = c)"

text \<open>
  A full global pass as the specification words it, to compare \<open>replace\<close> with: the text
  is gone through from left to right, from the position \<open>i\<close> on; where the pattern matches,
  the expansion of the replacement is put for the match and the pass goes on behind the
  match; where it does not, the character is kept.  After an empty match the character at
  the position is kept and the pass goes on behind it.
\<close>

function spec_global_replace ::
  "'rx regex_engine \<Rightarrow> 'rx \<Rightarrow> string \<Rightarrow> string \<Rightarrow> nat \<Rightarrow> string" where
  "spec_global_replace E rx s r i =
     (if length s < i then []
      else (case match_at E rx s i of
              None \<Rightarrow> take 1 (drop i s) @ spec_global_replace E rx s r (Suc i)
            | Some (len, caps) \<Rightarrow>
                getSubstitution (take len (drop i s)) s i caps r
                @ (if take len (drop i s) = []
                   then take 1 (drop i s) @ spec_global_replace E rx s r (Suc i)
                   else spec_global_replace E rx s r (i + length (take len (drop i s))))))"
  by pat_completeness auto
termination
  by (relation "measure (\<lambda>(E, rx, s, r, i). Suc (length s) - i)") auto

declare spec_global_replace.simps [simp del]

text \<open>
  Two rules with the same pattern, \<open>a\<close> to \<open>b\<close> loaded before \<open>a\<close> to \<open>c\<close>, and the text
  \<open>aa\<close> in \<open>/p/a.js\<close>: each rule has a finding at column 1 and a finding at column 2.
\<close>

definition tie_rules :: "json list" where
  "tie_rules = [rule_json ''a-to-b'' ''a'' (JStr ''b''), rule_json ''a-to-c'' ''a'' (JStr ''c'')]"

definition tie_findings :: "finding list" where
  "tie_findings = fst (applyRules js_engine (load_js tie_rules) ''aa'' ''/p/a.js'' ''js'')"

definition tie_fs :: filesystem where
  "tie_fs = [''/p/a.js'' \<mapsto> File ''aa'' True True]"

subsection \<open>Loading rules\<close>

text \<open>
  The rule's pattern compiles (with the flags \<open>gm\<close> of \<open>loadRules\<close>); the entry of the rules
  file passes \<open>validateRule\<close>.
\<close>

definition compiles :: "'rx regex_engine \<Rightarrow> rule \<Rightarrow> bool" where
  "compiles E r = (\<not> isl (compile E (r_pattern r) True))"

definition valid_rule :: "json \<Rightarrow> bool" where
  "valid_rule j = (\<not> isl (validateRule j))"

text \<open>
  Three rules of which the second has the severity \<open>critical\<close>; three valid rules of
  which the second has the pattern \<open>(b\<close>, which is not a regular expression.
\<close>

definition rule_with_severity :: "string \<Rightarrow> string \<Rightarrow> json \<Rightarrow> json \<Rightarrow> json" where
  "rule_with_severity i p rep sev =
     JObj [(''id'', JStr i), (''name'', JStr i), (''description'', JStr i),
           (''pattern'', JStr p), (''replacement'', rep),
           (''fileTypes'', JArr [JStr ''js'']), (''severity'', sev)]"

definition rules_document :: "json list \<Rightarrow> json" where
  "rules_document rs = JObj [(''rules'', JArr rs)]"

definition engine_with_handler :: "js_item list rule_engine" where
  "engine_with_handler = new_RuleEngine ''rules.json'' (Some new_ErrorHandler)"

definition bad_severity_rules :: "json list" where
  "bad_severity_rules =
     [rule_json ''first'' ''a'' (JStr ''b''),
      rule_with_severity ''second'' ''b'' (JStr ''c'') (JStr ''critical''),
      rule_json ''third'' ''c'' (JStr ''d'')]"

definition bad_pattern_rules :: "json list" where
  "bad_pattern_rules =
     [rule_json ''first'' ''a'' (JStr ''b''),
      rule_json ''second'' ''(b'' (JStr ''c''),
      rule_json ''third'' ''c'' JNull]"

subsection \<open>Backing up the same file twice\<close>

text \<open>
  Two calls of \<open>createBackup\<close> for one path in one session, at the times \<open>t1\<close> and \<open>t2\<close>:
  what the calls return, the registry afterwards, and what the file system then holds at
  the given paths.
\<close>

definition backup_twice ::
  "fixer \<Rightarrow> filesystem \<Rightarrow> string \<Rightarrow> string \<Rightarrow> string \<Rightarrow> string list
     \<Rightarrow> (string + string) \<times> (string + string) \<times> (string \<times> string) list \<times> node option list" where
  "backup_twice fx fs t1 t2 path paths =
     (case createBackup fx fs t1 path of
        (r1, fx1, fs1) \<Rightarrow>
          (case createBackup fx1 fs1 t2 path of
             (r2, fx2, fs2) \<Rightarrow> (r1, r2, backupRegistry fx2, map fs2 paths)))"

text \<open>A fresh fixer whose backups carry no time stamp.\<close>

definition untimestamped_fixer :: fixer where
  "untimestamped_fixer =
     new_Fixer \<lparr>backupDir = ''/p/.backups'', createTimestampedBackups = False, dryRun = False\<rparr>"

subsection \<open>The cap on the matches of one rule\<close>

text \<open>
  A text of 10,001 letters \<open>a\<close> and an engine, with an error handler, that has loaded the
  one rule with the pattern \<open>a\<close>: the pattern matches 10,001 times.
\<close>

definition many_content :: string where
  "many_content = replicate 10001 (CHR ''a'')"

definition many_engine :: "js_item list rule_engine" where
  "many_engine = load_js [rule_json ''many'' ''a'' JNull]"

subsection \<open>Errors while fixing several files\<close>

text \<open>
  The step for \<open>path\<close> makes a backup: backups are asked for, the fixer is not in dry-run
  mode, and \<open>createBackup\<close> succeeds.
\<close>

definition backs_up :: "fix_options \<Rightarrow> fixer \<Rightarrow> filesystem \<Rightarrow> string \<Rightarrow> string \<Rightarrow> bool" where
  "backs_up opts fx fs t path =
     (backupBeforeFix opts \<and> \<not> dryRun (options fx) \<and> \<not> isl (fst (createBackup fx fs t path)))"

text \<open>The paths the registry holds a backup for: what \<open>rollbackChanges\<close> restores.\<close>

definition registered :: "fixer \<Rightarrow> string set" where
  "registered fx = fst ` set (backupRegistry fx)"

text \<open>
  Two files with one \<open>var\<close> each, the second read-only, and their findings for the rule
  \<open>\bvar\b\<close> to \<open>const\<close>.
\<close>

definition var_engine :: "js_item list rule_engine" where
  "var_engine = load_js [rule_json ''var-to-const'' var_word_pattern (JStr ''const'')]"

definition two_files_fs :: filesystem where
  "two_files_fs =
     [''/p/a.js'' \<mapsto> File ''var a;'' True True, ''/p/b.js'' \<mapsto> File ''var b;'' True False]"

definition two_files_findings :: "finding list" where
  "two_files_findings =
     fst (applyRules js_engine var_engine ''var a;'' ''/p/a.js'' ''js'')
     @ fst (applyRules js_engine var_engine ''var b;'' ''/p/b.js'' ''js'')"

definition abort_options :: fix_options where
  "abort_options = \<lparr>backupBeforeFix = True, continueOnError = False\<rparr>"

definition var_finding :: "string \<Rightarrow> finding" where
  "var_finding path =
     \<lparr>ruleId = ''var-to-const'', ruleName = ''var-to-const'',
      description = Some (JStr ''var-to-const''), filePath = path, lineNumber = 1,
      columnNumber = 1, matchedText = ''var'', severity = ''warning'', fixable = True,
      replacement = Some ''const'', pattern = Some var_word_pattern\<rparr>"

text \<open>
  The loop of the scenario without \<open>continueOnError\<close>: where it stands after the first
  file, and the step for the second file, which fails.
\<close>

definition two_files_before_failure ::
  "string option \<times> fix_results \<times> fixer \<times> filesystem" where
  "two_files_before_failure =
     process_files js_engine abort_options fixed_clock 0
       [(''/p/a.js'', [var_finding ''/p/a.js''])] empty_results (fixer_in False) two_files_fs"

definition two_files_at_failure ::
  "string option \<times> fix_results \<times> fixer \<times> filesystem" where
  "two_files_at_failure =
     file_step js_engine abort_options (fixed_clock 1) (''/p/b.js'', [var_finding ''/p/b.js''])
       (fst (snd two_files_before_failure)) (fst (snd (snd two_files_before_failure)))
       (snd (snd (snd two_files_before_failure)))"

subsection \<open>Findings that cannot be fixed\<close>











section \<open>Positions of findings\<close>

lemma length_split_newline: "length (split_newline s) = Suc (count_list s newline)"
proof (induction s)
  case Nil
  show ?case by simp
next
  case (Cons c cs)
  then show ?case by (cases "split_newline cs") auto
qed

lemma lastIndexOf_absent: "c \<notin> set s \<Longrightarrow> lastIndexOf s c = - 1"
  by (simp add: lastIndexOf_def)

lemma lastIndexOf_last:
  assumes "p < length s" and "s ! p = c" and "\<forall>q. p < q \<and> q < length s \<longrightarrow> s ! q \<noteq> c"
  shows "lastIndexOf s c = int p"
proof -
  have dec: "s = take p s @ c # drop (Suc p) s"
    using assms(1,2) by (metis id_take_nth_drop)
  have none: "c \<notin> set (drop (Suc p) s)"
  proof
    assume "c \<in> set (drop (Suc p) s)"
    then obtain k where k: "k < length (drop (Suc p) s)" "drop (Suc p) s ! k = c"
      by (auto simp: in_set_conv_nth)
    then have "s ! (Suc p + k) = c" "Suc p + k < length s" by auto
    with assms(3) show False by (metis add_Suc less_add_Suc1)
  qed
  have "rev s = rev (drop (Suc p) s) @ c # rev (take p s)"
    by (subst dec) simp
  then have "takeWhile (\<lambda>x. x \<noteq> c) (rev s) = rev (drop (Suc p) s)"
    using none by (auto simp: takeWhile_append2 takeWhile_tail)
  then have "length (takeWhile (\<lambda>x. x \<noteq> c) (rev s)) = length s - Suc p" by simp
  moreover have "c \<in> set s" using assms(1,2) by (auto simp: in_set_conv_nth)
  ultimately show ?thesis using assms(1) by (simp add: lastIndexOf_def)
qed

lemma collect_matches_bounds:
  "m \<in> set (collect_matches E rx s i) \<Longrightarrow> i \<le> m_index m \<and> m_end m \<le> length s"
proof (induction E rx s i rule: collect_matches.induct)
  case (1 E rx s i)
  show ?case
  proof (cases "regexp_exec E rx s i")
    case None
    with "1.prems" show ?thesis
      by (simp add: collect_matches.simps [of E rx s i])
  next
    case (Some m')
    with "1.prems" have "m = m' \<or> m \<in> set (collect_matches E rx s (next_index m'))"
      by (simp add: collect_matches.simps [of E rx s i])
    then show ?thesis
    proof
      assume "m = m'"
      with Some show ?thesis by (simp add: regexp_exec_bounds)
    next
      assume "m \<in> set (collect_matches E rx s (next_index m'))"
      with "1.IH" [OF Some] have "next_index m' \<le> m_index m \<and> m_end m \<le> length s" by simp
      moreover have "i < next_index m'" using Some by (simp add: next_index_advances)
      ultimately show ?thesis by simp
    qed
  qed
qed

text \<open>The capped scan loop against the uncapped list of all matches.\<close>

lemma scan_loop_collect:
  "iterations \<le> maxIterations \<Longrightarrow>
   scan_loop E rx content r path lastIndex iterations findings =
     (if maxIterations < iterations + length (collect_matches E rx content lastIndex)
      then Inl too_many_matches
      else Inr (findings @ map (make_finding r path content)
                  (collect_matches E rx content lastIndex)))"
proof (induction E rx content r path lastIndex iterations findings rule: scan_loop.induct)
  case (1 E rx content r path lastIndex iterations findings)
  show ?case
  proof (cases "regexp_exec E rx content lastIndex")
    case None
    then show ?thesis
      using "1.prems"
      by (simp add: scan_loop.simps [of E rx content r path lastIndex]
          collect_matches.simps [of E rx content lastIndex])
  next
    case (Some m)
    show ?thesis
    proof (cases "maxIterations < iterations + 1")
      case True
      then show ?thesis
        using Some
        by (simp add: scan_loop.simps [of E rx content r path lastIndex]
            collect_matches.simps [of E rx content lastIndex])
    next
      case False
      then have "iterations + 1 \<le> maxIterations" by simp
      with "1.IH" [OF Some False] Some False show ?thesis
        by (simp add: scan_loop.simps [of E rx content r path lastIndex]
            collect_matches.simps [of E rx content lastIndex])
    qed
  qed
qed

lemma applyRuleWithTimeout_collect:
  "applyRuleWithTimeout E rx li content r path =
     (if maxIterations < length (collect_matches E rx content li)
      then Inl too_many_matches
      else Inr (map (make_finding r path content) (collect_matches E rx content li)))"
  by (simp add: applyRuleWithTimeout_def scan_loop_collect)

lemma make_finding_line:
  "lineNumber (make_finding r path content m)
     = 1 + int (count_list (take (m_index m) content) newline)"
  by (simp add: make_finding_def Let_def length_split_newline)

lemma make_finding_column_first_line:
  assumes "m_index m \<le> length content"
    and "newline \<notin> set (take (m_index m) content)"
  shows "columnNumber (make_finding r path content m) = int (m_index m) + 1"
  using assms by (simp add: make_finding_def Let_def lastIndexOf_absent)

lemma make_finding_column_later_line:
  assumes "m_index m \<le> length content"
    and "p < m_index m" and "content ! p = newline"
    and "\<forall>q. p < q \<and> q < m_index m \<longrightarrow> content ! q \<noteq> newline"
  shows "columnNumber (make_finding r path content m) = int (m_index m) - int p"
proof -
  let ?b = "take (m_index m) content"
  have "lastIndexOf ?b newline = int p"
  proof (rule lastIndexOf_last)
    show "p < length ?b" using assms(1,2) by simp
    show "?b ! p = newline" using assms(2,3) by simp
    show "\<forall>q. p < q \<and> q < length ?b \<longrightarrow> ?b ! q \<noteq> newline"
      using assms(1,4) by simp
  qed
  then show ?thesis using assms(1) by (simp add: make_finding_def Let_def)
qed

section \<open>Suppression of repeated permission errors\<close>

lemma handlePermissionErrors_from:
  "permission (errorCounts (handlePermissionErrors h ps)) = permission (errorCounts h) + length ps \<and>
   console (handlePermissionErrors h ps) =
     console h @ map permission_report (take (3 - permission (errorCounts h)) ps)
       @ (if permission (errorCounts h) < 4 \<and> 4 \<le> permission (errorCounts h) + length ps
          then [suppression_notice] else [])"
proof (induction ps arbitrary: h)
  case Nil
  show ?case by simp
next
  case (Cons p ps)
  let ?k = "permission (errorCounts h)"
  let ?h' = "snd (handlePermissionError h p)"
  have cnt: "permission (errorCounts ?h') = ?k + 1"
    by (simp add: handlePermissionError_def Let_def)
  have con: "console ?h' =
      console h @ (if ?k + 1 \<le> 3 then [permission_report p]
                   else if ?k + 1 = 4 then [suppression_notice] else [])"
    by (simp add: handlePermissionError_def Let_def)
  consider "?k < 3" | "?k = 3" | "3 < ?k" by linarith
  then show ?case
  proof cases
    case 1
    then have "3 - ?k = Suc (3 - (?k + 1))" by simp
    then have t: "take (3 - ?k) (p # ps) = p # take (3 - (?k + 1)) ps"
      by (simp only: take_Suc_Cons)
    from 1 show ?thesis
      using Cons.IH [of ?h'] by (simp add: cnt con t)
  next
    case 2
    then show ?thesis
      using Cons.IH [of ?h'] by (simp add: cnt con)
  next
    case 3
    then show ?thesis
      using Cons.IH [of ?h'] by (simp add: cnt con)
  qed
qed

text \<open>
  Claim C9.  In a session whose permission counter starts at zero, a run of permission
  errors for the paths \<open>ps\<close> counts every call, reports the first three paths one by one,
  writes the suppression notice once (exactly when a fourth call happens), and writes
  nothing for any later call.
\<close>

theorem permission_errors_suppressed:
  assumes "permission (errorCounts h) = 0"
  shows "permission (errorCounts (handlePermissionErrors h ps)) = length ps \<and>
         console (handlePermissionErrors h ps) =
           console h @ map permission_report (take 3 ps)
             @ (if 4 \<le> length ps then [suppression_notice] else [])"
  using handlePermissionErrors_from [of h ps] assms by simp

theorem permission_errors_suppressed_witness:
  "permission (errorCounts new_ErrorHandler) = 0 \<and>
   permission (errorCounts (handlePermissionErrors new_ErrorHandler
      [''/t/f0'', ''/t/f1'', ''/t/f2'', ''/t/f3'', ''/t/f4'', ''/t/f5''])) = 6 \<and>
   console (handlePermissionErrors new_ErrorHandler
      [''/t/f0'', ''/t/f1'', ''/t/f2'', ''/t/f3'', ''/t/f4'', ''/t/f5'']) =
     [permission_report ''/t/f0'', permission_report ''/t/f1'', permission_report ''/t/f2'',
      suppression_notice]"
proof -
  have h: "permission (errorCounts new_ErrorHandler) = 0"
    by (simp add: new_ErrorHandler_def new_error_counts_def)
  have c: "console new_ErrorHandler = []"
    by (simp add: new_ErrorHandler_def)
  show ?thesis
    using permission_errors_suppressed [OF h,
        of "[''/t/f0'', ''/t/f1'', ''/t/f2'', ''/t/f3'', ''/t/f4'', ''/t/f5'']"] h c
    by simp
qed

section \<open>Line and column of a finding\<close>

text \<open>
  Claim C7.  When the scan of a rule succeeds, its findings are the matches of the
  expression in order; for the match at offset \<open>i\<close> the finding's line is one more than
  the number of line feeds before \<open>i\<close>, and its column is \<open>i + 1\<close> when no line feed
  precedes \<open>i\<close> and \<open>i - p\<close> when the last line feed before \<open>i\<close> is at offset \<open>p\<close>.  For the
  text \<open>a\nb\nvar x=1;\<close> and the pattern \<open>\bvar\s+\w+\<close> the one finding is at line 3,
  column 1.
\<close>

theorem finding_position_correct:
  "(\<forall>(E :: 'rx regex_engine) rx li content r path fs.
      applyRuleWithTimeout E rx li content r path = Inr fs \<longrightarrow>
      length fs = length (collect_matches E rx content li) \<and>
      (\<forall>k i. k < length fs \<and> i = m_index (collect_matches E rx content li ! k) \<longrightarrow>
         lineNumber (fs ! k) = 1 + int (count_list (take i content) newline) \<and>
         (newline \<notin> set (take i content) \<longrightarrow> columnNumber (fs ! k) = int i + 1) \<and>
         (\<forall>p. p < i \<and> content ! p = newline \<and> (\<forall>q. p < q \<and> q < i \<longrightarrow> content ! q \<noteq> newline)
            \<longrightarrow> columnNumber (fs ! k) = int i - int p)))
   \<and> map (\<lambda>f. (lineNumber f, columnNumber f))
        (fst (applyRules js_engine (load_js [rule_json ''var-decl'' var_decl_pattern JNull])
                position_content ''test.js'' ''js'')) = [(3, 1)]"
proof (intro conjI allI impI)
  fix E :: "'rx regex_engine" and rx li content r path fs
  assume a: "applyRuleWithTimeout E rx li content r path = Inr fs"
  let ?ms = "collect_matches E rx content li"
  from a have fs: "fs = map (make_finding r path content) ?ms"
    by (simp add: applyRuleWithTimeout_collect split: if_splits)
  then show "length fs = length ?ms" by simp
  fix k i
  assume "k < length fs \<and> i = m_index (?ms ! k)"
  then have k: "k < length ?ms" and i: "i = m_index (?ms ! k)" using fs by simp_all
  have f: "fs ! k = make_finding r path content (?ms ! k)" using fs k by simp
  have "?ms ! k \<in> set ?ms" using k by simp
  then have b: "m_index (?ms ! k) \<le> length content" "m_end (?ms ! k) \<le> length content"
    using collect_matches_bounds [of "?ms ! k" E rx content li] by (simp_all add: m_end_def)
  show "lineNumber (fs ! k) = 1 + int (count_list (take i content) newline)"
    by (simp add: f i make_finding_line)
  {
    assume "newline \<notin> set (take i content)"
    then show "columnNumber (fs ! k) = int i + 1"
      using b by (simp add: f i make_finding_column_first_line)
  }
  {
    fix p
    assume "p < i \<and> content ! p = newline \<and> (\<forall>q. p < q \<and> q < i \<longrightarrow> content ! q \<noteq> newline)"
    then show "columnNumber (fs ! k) = int i - int p"
      using b make_finding_column_later_line [of "?ms ! k" content p r path]
      by (simp add: f i)
  }
next
  show "map (\<lambda>f. (lineNumber f, columnNumber f))
        (fst (applyRules js_engine (load_js [rule_json ''var-decl'' var_decl_pattern JNull])
                position_content ''test.js'' ''js'')) = [(3, 1)]"
    by code_simp
qed

theorem finding_position_correct_witness:
  "\<exists>fs. applyRuleWithTimeout js_engine
          [WordB, One (Lit CHR ''v''), One (Lit CHR ''a''), One (Lit CHR ''r''), Plus Space, Plus Word]
          0 var_content (rule_of (rule_json ''var-decl'' var_decl_pattern JNull)) ''test.js''
        = Inr fs \<and>
      length fs = 2 \<and>
      lineNumber (fs ! 0) = 1 \<and> columnNumber (fs ! 0) = 1 \<and>
      lineNumber (fs ! 1) = 2 \<and> columnNumber (fs ! 1) = 1"
proof -
  let ?rx = "[WordB, One (Lit CHR ''v''), One (Lit CHR ''a''), One (Lit CHR ''r''), Plus Space, Plus Word]"
  let ?r = "rule_of (rule_json ''var-decl'' var_decl_pattern JNull)"
  have ms: "collect_matches js_engine ?rx var_content 0
      = [\<lparr>m_index = 0, m_text = ''var x'', m_groups = []\<rparr>,
         \<lparr>m_index = 11, m_text = ''var y'', m_groups = []\<rparr>]"
    by code_simp
  obtain fs where fs: "applyRuleWithTimeout js_engine ?rx 0 var_content ?r ''test.js'' = Inr fs"
    by (simp add: applyRuleWithTimeout_collect ms maxIterations_def)
  note g = finding_position_correct [THEN conjunct1, rule_format, OF fs]
  have len: "length fs = 2" using g [THEN conjunct1] by (simp add: ms)
  have k0: "0 < length fs \<and> (0::nat) = m_index (collect_matches js_engine ?rx var_content 0 ! 0)"
    using len by (simp add: ms)
  have k1: "1 < length fs \<and> (11::nat) = m_index (collect_matches js_engine ?rx var_content 0 ! 1)"
    using len by (simp add: ms)
  note h0 = g [THEN conjunct2, rule_format, OF k0]
  note h1 = g [THEN conjunct2, rule_format, OF k1]
  have line0: "lineNumber (fs ! 0) = 1"
    using h0 [THEN conjunct1] by simp
  have col0: "columnNumber (fs ! 0) = 1"
    using h0 [THEN conjunct2, THEN conjunct1] by simp
  have line1: "lineNumber (fs ! 1) = 2"
    using h1 [THEN conjunct1] by (simp add: var_content_def newline_def)
  have "(10::nat) < 11 \<and> var_content ! 10 = newline
      \<and> (\<forall>q. 10 < q \<and> q < 11 \<longrightarrow> var_content ! q \<noteq> newline)"
    by (simp add: var_content_def newline_def)
  then have col1: "columnNumber (fs ! 1) = 1"
    using h1 [THEN conjunct2, THEN conjunct2, rule_format, of 10] by simp
  show ?thesis
    by (rule exI [of _ fs]) (intro conjI fs len line0 col0 line1 col1)
qed

section \<open>Replacement without a usable pattern\<close>

lemma occurs_at_Cons: "occurs_at (c # cs) t (Suc i) = occurs_at cs t i"
  by (simp add: occurs_at_def)

lemma indexOf_from_None:
  "indexOf_from s t k = None \<Longrightarrow> \<not> occurs_at s t i"
proof (induction s arbitrary: k i)
  case Nil
  then show ?case by (auto simp: occurs_at_def split: if_splits)
next
  case (Cons c cs)
  from Cons.prems have h: "take (length t) (c # cs) \<noteq> t" "indexOf_from cs t (Suc k) = None"
    by (auto split: if_splits)
  show ?case
  proof (cases i)
    case 0
    with h(1) show ?thesis by (simp add: occurs_at_def)
  next
    case (Suc j)
    with Cons.IH [OF h(2)] show ?thesis by (simp add: occurs_at_Cons)
  qed
qed

lemma indexOf_from_Some:
  "indexOf_from s t k = Some n \<Longrightarrow>
     k \<le> n \<and> occurs_at s t (n - k) \<and> (\<forall>j < n - k. \<not> occurs_at s t j)"
proof (induction s arbitrary: k)
  case Nil
  then show ?case by (auto simp: occurs_at_def split: if_splits)
next
  case (Cons c cs)
  show ?case
  proof (cases "take (length t) (c # cs) = t")
    case True
    with Cons.prems have "n = k" by simp
    with True show ?thesis by (simp add: occurs_at_def)
  next
    case False
    with Cons.prems have "indexOf_from cs t (Suc k) = Some n" by simp
    from Cons.IH [OF this]
    have ih: "Suc k \<le> n" "occurs_at cs t (n - Suc k)" "\<forall>j < n - Suc k. \<not> occurs_at cs t j"
      by simp_all
    from ih(1) have nk: "n - k = Suc (n - Suc k)" by simp
    have "occurs_at (c # cs) t (n - k)" using ih(2) by (simp add: nk occurs_at_Cons)
    moreover have "\<forall>j < n - k. \<not> occurs_at (c # cs) t j"
    proof (intro allI impI)
      fix j assume j: "j < n - k"
      show "\<not> occurs_at (c # cs) t j"
      proof (cases j)
        case 0
        with False show ?thesis by (simp add: occurs_at_def)
      next
        case (Suc j')
        with j nk ih(3) show ?thesis by (simp add: occurs_at_Cons)
      qed
    qed
    ultimately show ?thesis using ih(1) by simp
  qed
qed

lemma replace_string_absent:
  "\<forall>i. \<not> occurs_at s t i \<Longrightarrow> replace_string s t r = s"
proof (cases "indexOf s t")
  case None
  then show ?thesis by (simp add: replace_string_def)
next
  case (Some n)
  assume a: "\<forall>i. \<not> occurs_at s t i"
  from Some have "occurs_at s t n"
    using indexOf_from_Some [of s t 0 n] by (simp add: indexOf_def)
  with a show ?thesis by simp
qed

lemma replace_string_first:
  assumes "occurs_at s t i" and "\<forall>j < i. \<not> occurs_at s t j"
  shows "replace_string s t r = take i s @ getSubstitution t s i [] r @ drop (i + length t) s"
proof (cases "indexOf s t")
  case None
  then have "\<not> occurs_at s t i"
    using indexOf_from_None [of s t 0 i] by (simp add: indexOf_def)
  with assms(1) show ?thesis by simp
next
  case (Some n)
  then have n: "occurs_at s t n" "\<forall>j < n. \<not> occurs_at s t j"
    using indexOf_from_Some [of s t 0 n] by (simp_all add: indexOf_def)
  have "n = i"
  proof (rule ccontr)
    assume "n \<noteq> i"
    then consider "n < i" | "i < n" by linarith
    then show False using assms n by cases auto
  qed
  with Some show ?thesis by (simp add: replace_string_def)
qed

lemma getSubstitution_plain:
  "CHR ''$'' \<notin> set r \<Longrightarrow> getSubstitution matched str pos caps r = r"
  by (induction matched str pos caps r rule: getSubstitution.induct) auto

lemma applyPatternReplacement_fallback:
  assumes "pattern f = None \<or> pattern f = Some [] \<or>
           (\<exists>p e. pattern f = Some p \<and> compile E p False = Inl e)"
  shows "applyPatternReplacement E content f
           = replace_string content (matchedText f) (replacement_text f)"
  using assms by (auto simp: applyPatternReplacement_def)

text \<open>
  Claim C10.  For a finding with no pattern, an empty pattern, or a pattern the engine
  rejects, \<open>applyPatternReplacement\<close> leaves a content without the matched text as it is
  and otherwise replaces the first occurrence of the matched text only: everything after
  that occurrence is kept as it stands, later occurrences included.  The text put in is
  the expansion of the replacement, the replacement itself when it has no \<open>$\<close>.
\<close>

theorem fallback_replaces_first_occurrence_only:
  assumes "pattern f = None \<or> pattern f = Some [] \<or>
           (\<exists>p e. pattern f = Some p \<and> compile E p False = Inl e)"
  shows "((\<forall>i. \<not> occurs_at content (matchedText f) i) \<longrightarrow>
            applyPatternReplacement E content f = content) \<and>
         (\<forall>i. occurs_at content (matchedText f) i
                \<and> (\<forall>j < i. \<not> occurs_at content (matchedText f) j) \<longrightarrow>
            applyPatternReplacement E content f
              = take i content
                @ getSubstitution (matchedText f) content i [] (replacement_text f)
                @ drop (i + length (matchedText f)) content \<and>
            (CHR ''$'' \<notin> set (replacement_text f) \<longrightarrow>
               applyPatternReplacement E content f
                 = take i content @ replacement_text f
                   @ drop (i + length (matchedText f)) content))"
proof -
  have fb: "applyPatternReplacement E content f
      = replace_string content (matchedText f) (replacement_text f)"
    using assms by (rule applyPatternReplacement_fallback)
  show ?thesis
  proof (intro conjI allI impI)
    assume "\<forall>i. \<not> occurs_at content (matchedText f) i"
    then show "applyPatternReplacement E content f = content"
      by (simp add: fb replace_string_absent)
  next
    fix i
    assume a: "occurs_at content (matchedText f) i
        \<and> (\<forall>j < i. \<not> occurs_at content (matchedText f) j)"
    then show first: "applyPatternReplacement E content f
        = take i content @ getSubstitution (matchedText f) content i [] (replacement_text f)
          @ drop (i + length (matchedText f)) content"
      by (simp add: fb replace_string_first)
    assume "CHR ''$'' \<notin> set (replacement_text f)"
    then show "applyPatternReplacement E content f
        = take i content @ replacement_text f @ drop (i + length (matchedText f)) content"
      using first by (simp add: getSubstitution_plain)
  qed
qed

theorem fallback_replaces_first_occurrence_only_witness:
  "applyPatternReplacement js_engine ''abc'' (plain_finding ''X'' ''Y'' None) = ''abc'' \<and>
   applyPatternReplacement js_engine ''aXbX'' (plain_finding ''X'' ''Y'' None) = ''aYbX'' \<and>
   applyPatternReplacement js_engine ''aXbX'' (plain_finding ''X'' ''Y'' (Some ''(X'')) = ''aYbX'' \<and>
   applyPatternReplacement js_engine ''aXbX'' (plain_finding ''X'' ''Y'' (Some ''X'')) = ''aYbY''"
proof -
  let ?f = "plain_finding ''X'' ''Y'' None"
  let ?g = "plain_finding ''X'' ''Y'' (Some ''(X'')"
  have pf: "pattern ?f = None \<or> pattern ?f = Some [] \<or>
      (\<exists>p e. pattern ?f = Some p \<and> compile js_engine p False = Inl e)"
    by (simp add: plain_finding_def)
  have "compile js_engine ''(X'' False = Inl ''Invalid regular expression''"
    by code_simp
  then have pg: "pattern ?g = None \<or> pattern ?g = Some [] \<or>
      (\<exists>p e. pattern ?g = Some p \<and> compile js_engine p False = Inl e)"
    by (simp add: plain_finding_def)
  have occ: "occurs_at ''aXbX'' ''X'' 1 \<and> (\<forall>j < 1. \<not> occurs_at ''aXbX'' ''X'' j)"
    by (simp add: occurs_at_def)
  have mf: "matchedText ?f = ''X''" "replacement_text ?f = ''Y''"
    "matchedText ?g = ''X''" "replacement_text ?g = ''Y''"
    by (simp_all add: plain_finding_def replacement_text_def)
  have 1: "applyPatternReplacement js_engine ''aXbX'' ?f = ''aYbX''"
    using fallback_replaces_first_occurrence_only [OF pf, of "''aXbX''",
        THEN conjunct2, rule_format, of 1, THEN conjunct2] occ
    by (simp add: mf)
  have 2: "applyPatternReplacement js_engine ''aXbX'' ?g = ''aYbX''"
    using fallback_replaces_first_occurrence_only [OF pg, of "''aXbX''",
        THEN conjunct2, rule_format, of 1, THEN conjunct2] occ
    by (simp add: mf)
  have 3: "applyPatternReplacement js_engine ''aXbX'' (plain_finding ''X'' ''Y'' (Some ''X'')) = ''aYbY''"
    by code_simp
  have "indexOf_from ''abc'' ''X'' 0 = None" by simp
  then have "\<forall>i. \<not> occurs_at ''abc'' ''X'' i"
    by (simp add: indexOf_from_None)
  then have 0: "applyPatternReplacement js_engine ''abc'' ?f = ''abc''"
    using fallback_replaces_first_occurrence_only [OF pf, of "''abc''", THEN conjunct1]
    by (simp add: mf)
  from 0 1 2 3 show ?thesis by simp
qed

section \<open>The dry-run scenario\<close>

lemma var_findings_value:
  "var_findings =
     [\<lparr>ruleId = ''var-to-const'', ruleName = ''var-to-const'',
       description = Some (JStr ''var-to-const''), filePath = ''/p/a.js'', lineNumber = 1,
       columnNumber = 1, matchedText = ''var'', severity = ''warning'', fixable = True,
       replacement = Some ''const'', pattern = Some var_word_pattern\<rparr>,
      \<lparr>ruleId = ''var-to-const'', ruleName = ''var-to-const'',
       description = Some (JStr ''var-to-const''), filePath = ''/p/a.js'', lineNumber = 2,
       columnNumber = 1, matchedText = ''var'', severity = ''warning'', fixable = True,
       replacement = Some ''const'', pattern = Some var_word_pattern\<rparr>]"
  by code_simp

text \<open>
  Claim C1.  In the dry-run scenario the scan yields two findings, one per line; the file
  stays as it was and neither a backup nor the backup directory is created.  The count
  \<open>patternsReplaced\<close> is 1, not 2: the first finding applied replaces both occurrences in
  one global pass, the second then changes nothing and is not counted.
\<close>

theorem dry_run_scenario_counts_one:
  "length var_findings = 2 \<and>
   observe (applyFixes js_engine default_fix_options fixed_clock (fixer_in True) var_fs
              var_findings) [''/p/a.js'', ''/p/.backups'']
     = (Inr \<lparr>filesProcessed = 1, filesFixed = 1, patternsReplaced = 1, errors = [],
              backupsCreated = [], res_fixedFiles = [''/p/a.js'']\<rparr>,
        [], [Some (File var_content True True), None])"
  unfolding var_findings_value by code_simp

section \<open>The order of the substitutions in one file\<close>

lemma chain_findings_value:
  "chain_findings =
     [\<lparr>ruleId = ''a-to-b'', ruleName = ''a-to-b'', description = Some (JStr ''a-to-b''),
       filePath = ''/p/a.js'', lineNumber = 1, columnNumber = 1, matchedText = ''a'',
       severity = ''warning'', fixable = True, replacement = Some ''b'', pattern = Some ''a''\<rparr>,
      \<lparr>ruleId = ''b-to-c'', ruleName = ''b-to-c'', description = Some (JStr ''b-to-c''),
       filePath = ''/p/a.js'', lineNumber = 2, columnNumber = 1, matchedText = ''b'',
       severity = ''warning'', fixable = True, replacement = Some ''c'', pattern = Some ''b''\<rparr>]"
  by code_simp

lemma chain_rules_value:
  "map r_id (rules (load_js chain_rules)) = [''a-to-b'', ''b-to-c'']"
  by code_simp

text \<open>
  Claim C2, as stated, fails.  The fixer leaves \<open>b\nc\<close> in the file: it applied the second
  rule's finding (line 2) before the first rule's (line 1).  In rule order the result
  would be \<open>c\nc\<close>, the second rule seeing the \<open>b\<close> the first has written.
\<close>

theorem rule_order_counterexample:
  "map r_id (rules (load_js chain_rules)) = [''a-to-b'', ''b-to-c''] \<and>
   map ruleId chain_findings = [''a-to-b'', ''b-to-c''] \<and>
   observe (applyFixes js_engine default_fix_options fixed_clock (fixer_in False) chain_fs
              chain_findings) [''/p/a.js'']
     = (Inr \<lparr>filesProcessed = 1, filesFixed = 1, patternsReplaced = 2, errors = [],
              backupsCreated = [''/p/.backups/a.js.2025-08-14T15-55-15-707Z.backup''],
              res_fixedFiles = [''/p/a.js'']\<rparr>,
        [(''/p/a.js'', ''/p/.backups/a.js.2025-08-14T15-55-15-707Z.backup'')],
        [Some (File (''b'' @ [newline] @ ''c'') True True)]) \<and>
   spec_fix_in_rule_order js_engine (rules (load_js chain_rules)) chain_findings chain_content
     = ''c'' @ [newline] @ ''c''"
  unfolding chain_findings_value by code_simp

lemma apply_findings_foldl:
  "fst (apply_findings E content n fs) = foldl (applyPatternReplacement E) content fs"
  by (induction fs arbitrary: content n) (simp_all add: Let_def)

lemma sort_findings_sorted: "sorted_wrt position_ge (sort_findings fs)"
proof -
  let ?key = "\<lambda>f. (- lineNumber f, - columnNumber f)"
  have "sorted (map ?key (sort_key ?key fs))" by (rule sorted_sort_key)
  then have "sorted_wrt (\<lambda>a b. ?key a \<le> ?key b) (sort_key ?key fs)"
    by (simp add: sorted_map)
  moreover have "\<And>a b. ?key a \<le> ?key b \<Longrightarrow> position_ge a b"
    by (auto simp: position_ge_def less_eq_prod_def)
  ultimately show ?thesis
    unfolding sort_findings_def by (rule sorted_wrt_mono_rel [rotated]) auto
qed

lemma sort_findings_stable:
  "filter (at_position l c) (sort_findings fs) = filter (at_position l c) fs"
proof -
  let ?key = "\<lambda>f. (- lineNumber f, - columnNumber f)"
  have "at_position l c = (\<lambda>f. ?key f = (- l, - c))"
    by (auto simp: at_position_def fun_eq_iff)
  then show ?thesis
    unfolding sort_findings_def by (simp only: sort_key_stable)
qed

text \<open>
  \<open>replace\<close> goes through the matches that \<open>exec\<close> finds one after the other; this is the
  pass from left to right.
\<close>

lemma substitute_collect_spec:
  "nextPos \<le> i \<Longrightarrow>
     substitute_matches s r nextPos (collect_matches E rx s i)
       = take (i - nextPos) (drop nextPos s) @ spec_global_replace E rx s r i"
proof (induction E rx s r i arbitrary: nextPos rule: spec_global_replace.induct)
  case (1 E rx s r i)
  show ?case
  proof (cases "length s < i")
    case True
    then have "regexp_exec E rx s i = None" by (simp add: regexp_exec.simps [of E rx s i])
    then have "collect_matches E rx s i = []" by (simp add: collect_matches.simps [of E rx s i])
    with True "1.prems" show ?thesis
      by (simp add: spec_global_replace.simps [of E rx s r i])
  next
    case False
    show ?thesis
    proof (cases "match_at E rx s i")
      case None
      with False have "regexp_exec E rx s i = regexp_exec E rx s (Suc i)"
        by (simp add: regexp_exec.simps [of E rx s i])
      then have c: "collect_matches E rx s i = collect_matches E rx s (Suc i)"
        by (simp add: collect_matches.simps [of E rx s i] collect_matches.simps [of E rx s "Suc i"])
      from "1.prems" have le: "nextPos \<le> Suc i" by simp
      have t: "take (Suc i - nextPos) (drop nextPos s)
          = take (i - nextPos) (drop nextPos s) @ take 1 (drop i s)"
        using "1.prems" take_add [of "i - nextPos" 1 "drop nextPos s"]
        by (simp add: Suc_diff_le)
      from "1.IH"(1) [OF False None le] c t None False show ?thesis
        by (simp add: spec_global_replace.simps [of E rx s r i])
    next
      case (Some a)
      obtain len caps where a: "a = (len, caps)" by (cases a)
      let ?t = "take len (drop i s)"
      let ?m = "\<lparr>m_index = i, m_text = ?t, m_groups = caps\<rparr>"
      from False Some a have ex: "regexp_exec E rx s i = Some ?m"
        by (simp add: regexp_exec.simps [of E rx s i])
      then have c: "collect_matches E rx s i = ?m # collect_matches E rx s (next_index ?m)"
        by (simp add: collect_matches.simps [of E rx s i])
      show ?thesis
      proof (cases "?t = []")
        case True
        then have ni: "next_index ?m = Suc i" and me: "m_end ?m = i"
          by (auto simp add: next_index_def m_end_def)
        have "substitute_matches s r i (collect_matches E rx s (Suc i))
            = take (Suc i - i) (drop i s) @ spec_global_replace E rx s r (Suc i)"
          using "1.IH"(2) [OF False Some a [symmetric] True, of i] by simp
        with c ni me "1.prems" Some a True False show ?thesis
          by (auto simp add: spec_global_replace.simps [of E rx s r i])
      next
        case F: False
        then have ni: "next_index ?m = i + length ?t" and me: "m_end ?m = i + length ?t"
          by (auto simp add: next_index_def m_end_def)
        have "substitute_matches s r (i + length ?t) (collect_matches E rx s (i + length ?t))
            = spec_global_replace E rx s r (i + length ?t)"
          using "1.IH"(3) [OF False Some a [symmetric] F, of "i + length ?t"] by simp
        with c ni me "1.prems" Some a F False show ?thesis
          by (auto simp add: spec_global_replace.simps [of E rx s r i])
      qed
    qed
  qed
qed

lemma replace_regex_spec:
  "replace_regex E rx s r = spec_global_replace E rx s r 0"
  using substitute_collect_spec [of 0 0 s r E rx] by (simp add: replace_regex_def)

lemma applyPatternReplacement_global:
  "pattern f = Some p \<Longrightarrow> p \<noteq> [] \<Longrightarrow> compile E p False = Inr rx \<Longrightarrow>
     applyPatternReplacement E content f
       = spec_global_replace E rx content (replacement_text f) 0"
  by (simp add: applyPatternReplacement_def replace_regex_spec)

lemma tie_findings_value:
  "tie_findings =
     [\<lparr>ruleId = ''a-to-b'', ruleName = ''a-to-b'', description = Some (JStr ''a-to-b''),
       filePath = ''/p/a.js'', lineNumber = 1, columnNumber = 1, matchedText = ''a'',
       severity = ''warning'', fixable = True, replacement = Some ''b'', pattern = Some ''a''\<rparr>,
      \<lparr>ruleId = ''a-to-b'', ruleName = ''a-to-b'', description = Some (JStr ''a-to-b''),
       filePath = ''/p/a.js'', lineNumber = 1, columnNumber = 2, matchedText = ''a'',
       severity = ''warning'', fixable = True, replacement = Some ''b'', pattern = Some ''a''\<rparr>,
      \<lparr>ruleId = ''a-to-c'', ruleName = ''a-to-c'', description = Some (JStr ''a-to-c''),
       filePath = ''/p/a.js'', lineNumber = 1, columnNumber = 1, matchedText = ''a'',
       severity = ''warning'', fixable = True, replacement = Some ''c'', pattern = Some ''a''\<rparr>,
      \<lparr>ruleId = ''a-to-c'', ruleName = ''a-to-c'', description = Some (JStr ''a-to-c''),
       filePath = ''/p/a.js'', lineNumber = 1, columnNumber = 2, matchedText = ''a'',
       severity = ''warning'', fixable = True, replacement = Some ''c'', pattern = Some ''a''\<rparr>]"
  by code_simp

text \<open>
  Claim C2, amended.  When \<open>fixFile\<close> succeeds outside dry-run mode, the file holds the
  result of applying the findings' substitutions one after the other, each to the content
  the one before has left, in the order \<open>sort_findings\<close> gives.  That order is the stable
  sort by descending position: the same findings, a finding further down the file (line,
  then column) before one further up, and the findings of one position in the order in
  which they were given.  The substitution of a finding whose pattern is not empty and
  compiles is a full global pass of that pattern over the content; that of a finding with
  no pattern, an empty pattern or a pattern the engine rejects is \<open>replace\<close> with the
  matched text as a string.
\<close>

theorem fixes_applied_by_descending_position:
  assumes "fixFile E fx fs path findings = (Inr r, fs')" and "\<not> dryRun (options fx)"
  shows "(\<exists>orig rd wr.
            fs path = Some (File orig rd wr) \<and>
            fs' path = Some (File (foldl (applyPatternReplacement E) orig (sort_findings findings))
                              rd wr)) \<and>
         mset (sort_findings findings) = mset findings \<and>
         sorted_wrt position_ge (sort_findings findings) \<and>
         (\<forall>l c. filter (at_position l c) (sort_findings findings)
                  = filter (at_position l c) findings) \<and>
         (\<forall>f p rx content.
            pattern f = Some p \<and> p \<noteq> [] \<and> compile E p False = Inr rx \<longrightarrow>
            applyPatternReplacement E content f
              = spec_global_replace E rx content (replacement_text f) 0) \<and>
         (\<forall>f content.
            pattern f = None \<or> pattern f = Some []
              \<or> (\<exists>p e. pattern f = Some p \<and> compile E p False = Inl e) \<longrightarrow>
            applyPatternReplacement E content f
              = replace_string content (matchedText f) (replacement_text f))"
proof -
  from assms(1) obtain orig where rd: "fs_readFile fs path = Inr orig"
    by (cases "fs_readFile fs path") (auto simp: fixFile_def)
  then obtain rdb wr where node: "fs path = Some (File orig rdb wr)" and rdb: "rdb"
    by (auto simp: fs_readFile_def split: option.splits node.splits if_splits)
  let ?m = "foldl (applyPatternReplacement E) orig (sort_findings findings)"
  obtain n where af: "apply_findings E orig 0 (sort_findings findings) = (?m, n)"
    using apply_findings_foldl [of E orig 0 "sort_findings findings"]
    by (cases "apply_findings E orig 0 (sort_findings findings)") simp
  have "fs' path = Some (File ?m rdb wr)"
  proof (cases "?m = orig")
    case True
    with assms rd af node show ?thesis by (simp add: fixFile_def)
  next
    case False
    with assms rd af node show ?thesis
      by (auto simp: fixFile_def fs_writeFile_def split: if_splits)
  qed
  with node have 1: "\<exists>orig rd wr.
      fs path = Some (File orig rd wr) \<and>
      fs' path = Some (File (foldl (applyPatternReplacement E) orig (sort_findings findings))
                        rd wr)"
    by blast
  have 2: "mset (sort_findings findings) = mset findings"
    by (simp add: sort_findings_def)
  have 3: "\<forall>l c. filter (at_position l c) (sort_findings findings)
      = filter (at_position l c) findings"
    by (simp add: sort_findings_stable)
  have 4: "\<forall>f p rx content.
      pattern f = Some p \<and> p \<noteq> [] \<and> compile E p False = Inr rx \<longrightarrow>
      applyPatternReplacement E content f
        = spec_global_replace E rx content (replacement_text f) 0"
    by (simp add: applyPatternReplacement_global)
  have 5: "\<forall>f content.
      pattern f = None \<or> pattern f = Some []
        \<or> (\<exists>p e. pattern f = Some p \<and> compile E p False = Inl e) \<longrightarrow>
      applyPatternReplacement E content f
        = replace_string content (matchedText f) (replacement_text f)"
    using applyPatternReplacement_fallback by blast
  from 1 2 sort_findings_sorted [of findings] 3 4 5 show ?thesis by (intro conjI)
qed

theorem fixes_applied_by_descending_position_witness:
  "(\<exists>r fs'. fixFile js_engine (fixer_in False) chain_fs ''/p/a.js'' chain_findings = (Inr r, fs') \<and>
      \<not> dryRun (options (fixer_in False)) \<and>
      map ruleId (sort_findings chain_findings) = [''b-to-c'', ''a-to-b''] \<and>
      fs' ''/p/a.js'' = Some (File (''b'' @ [newline] @ ''c'') True True)) \<and>
   (\<exists>r fs'. fixFile js_engine (fixer_in False) tie_fs ''/p/a.js'' tie_findings = (Inr r, fs') \<and>
      map ruleId tie_findings = [''a-to-b'', ''a-to-b'', ''a-to-c'', ''a-to-c''] \<and>
      map ruleId (filter (at_position 1 2) (sort_findings tie_findings)) = [''a-to-b'', ''a-to-c''] \<and>
      map ruleId (filter (at_position 1 1) (sort_findings tie_findings)) = [''a-to-b'', ''a-to-c''] \<and>
      applyPatternReplacement js_engine ''aa'' (hd tie_findings) = ''bb'' \<and>
      applyPatternReplacement js_engine ''aa'' (plain_finding ''a'' ''b'' None) = ''ba'' \<and>
      fs' ''/p/a.js'' = Some (File ''bb'' True True))"
proof -
  have nd: "\<not> dryRun (options (fixer_in False))"
    by (simp add: fixer_in_def new_Fixer_def)
  have "fst (fixFile js_engine (fixer_in False) chain_fs ''/p/a.js'' chain_findings)
      = Inr \<lparr>ff_patternsReplaced = 2, ff_originalSize = 3, ff_modifiedSize = 3\<rparr>"
    unfolding chain_findings_value by code_simp
  then obtain r fs' where
    ff: "fixFile js_engine (fixer_in False) chain_fs ''/p/a.js'' chain_findings = (Inr r, fs')"
    by (cases "fixFile js_engine (fixer_in False) chain_fs ''/p/a.js'' chain_findings") auto
  have srt: "map ruleId (sort_findings chain_findings) = [''b-to-c'', ''a-to-b'']"
    unfolding chain_findings_value by code_simp
  have fold: "foldl (applyPatternReplacement js_engine) chain_content (sort_findings chain_findings)
      = ''b'' @ [newline] @ ''c''"
    unfolding chain_findings_value by code_simp
  have node: "chain_fs ''/p/a.js'' = Some (File chain_content True True)"
    by (simp add: chain_fs_def)
  from fixes_applied_by_descending_position [OF ff nd, THEN conjunct1] node fold
  have h: "fs' ''/p/a.js'' = Some (File (''b'' @ [newline] @ ''c'') True True)"
    by auto
  have chain: "\<exists>r fs'.
      fixFile js_engine (fixer_in False) chain_fs ''/p/a.js'' chain_findings = (Inr r, fs') \<and>
      \<not> dryRun (options (fixer_in False)) \<and>
      map ruleId (sort_findings chain_findings) = [''b-to-c'', ''a-to-b''] \<and>
      fs' ''/p/a.js'' = Some (File (''b'' @ [newline] @ ''c'') True True)"
    by (rule exI [of _ r], rule exI [of _ fs']) (intro conjI ff nd srt h)
  have "fst (fixFile js_engine (fixer_in False) tie_fs ''/p/a.js'' tie_findings)
      = Inr \<lparr>ff_patternsReplaced = 1, ff_originalSize = 2, ff_modifiedSize = 2\<rparr>"
    unfolding tie_findings_value by code_simp
  then obtain r2 fs2 where
    ff2: "fixFile js_engine (fixer_in False) tie_fs ''/p/a.js'' tie_findings = (Inr r2, fs2)"
    by (cases "fixFile js_engine (fixer_in False) tie_fs ''/p/a.js'' tie_findings") auto
  note t = fixes_applied_by_descending_position [OF ff2 nd]
  have ids: "map ruleId tie_findings = [''a-to-b'', ''a-to-b'', ''a-to-c'', ''a-to-c'']"
    unfolding tie_findings_value by simp
  have u12: "map ruleId (filter (at_position 1 2) tie_findings) = [''a-to-b'', ''a-to-c'']"
    unfolding tie_findings_value by (simp add: at_position_def)
  have u11: "map ruleId (filter (at_position 1 1) tie_findings) = [''a-to-b'', ''a-to-c'']"
    unfolding tie_findings_value by (simp add: at_position_def)
  from t [THEN conjunct2, THEN conjunct2, THEN conjunct2, THEN conjunct1] u12
  have s12: "map ruleId (filter (at_position 1 2) (sort_findings tie_findings))
      = [''a-to-b'', ''a-to-c'']"
    by simp
  from t [THEN conjunct2, THEN conjunct2, THEN conjunct2, THEN conjunct1] u11
  have s11: "map ruleId (filter (at_position 1 1) (sort_findings tie_findings))
      = [''a-to-b'', ''a-to-c'']"
    by simp
  have pat: "pattern (hd tie_findings) = Some ''a'' \<and> ''a'' \<noteq> [] \<and>
      compile js_engine ''a'' False = Inr [One (Lit CHR ''a'')]"
    unfolding tie_findings_value by code_simp
  have glob: "spec_global_replace js_engine [One (Lit CHR ''a'')] ''aa''
      (replacement_text (hd tie_findings)) 0 = ''bb''"
    unfolding tie_findings_value by code_simp
  from t [THEN conjunct2, THEN conjunct2, THEN conjunct2, THEN conjunct2, THEN conjunct1,
      rule_format, OF pat] glob
  have g: "applyPatternReplacement js_engine ''aa'' (hd tie_findings) = ''bb''"
    by simp
  have np: "pattern (plain_finding ''a'' ''b'' None) = None \<or>
      pattern (plain_finding ''a'' ''b'' None) = Some [] \<or>
      (\<exists>p e. pattern (plain_finding ''a'' ''b'' None) = Some p
         \<and> compile js_engine p False = Inl e)"
    by (simp add: plain_finding_def)
  have first: "replace_string ''aa'' (matchedText (plain_finding ''a'' ''b'' None))
      (replacement_text (plain_finding ''a'' ''b'' None)) = ''ba''"
    by code_simp
  from t [THEN conjunct2, THEN conjunct2, THEN conjunct2, THEN conjunct2, THEN conjunct2,
      rule_format, OF np] first
  have fb: "applyPatternReplacement js_engine ''aa'' (plain_finding ''a'' ''b'' None) = ''ba''"
    by simp
  have fold2: "foldl (applyPatternReplacement js_engine) ''aa'' (sort_findings tie_findings) = ''bb''"
    unfolding tie_findings_value by code_simp
  have node2: "tie_fs ''/p/a.js'' = Some (File ''aa'' True True)"
    by (simp add: tie_fs_def)
  from t [THEN conjunct1] node2 fold2
  have h2: "fs2 ''/p/a.js'' = Some (File ''bb'' True True)"
    by auto
  have tie: "\<exists>r fs'.
      fixFile js_engine (fixer_in False) tie_fs ''/p/a.js'' tie_findings = (Inr r, fs') \<and>
      map ruleId tie_findings = [''a-to-b'', ''a-to-b'', ''a-to-c'', ''a-to-c''] \<and>
      map ruleId (filter (at_position 1 2) (sort_findings tie_findings)) = [''a-to-b'', ''a-to-c''] \<and>
      map ruleId (filter (at_position 1 1) (sort_findings tie_findings)) = [''a-to-b'', ''a-to-c''] \<and>
      applyPatternReplacement js_engine ''aa'' (hd tie_findings) = ''bb'' \<and>
      applyPatternReplacement js_engine ''aa'' (plain_finding ''a'' ''b'' None) = ''ba'' \<and>
      fs' ''/p/a.js'' = Some (File ''bb'' True True)"
    by (rule exI [of _ r2], rule exI [of _ fs2]) (intro conjI ff2 ids s12 s11 g fb h2)
  from chain tie show ?thesis by (rule conjI)
qed

section \<open>Loading rules\<close>

lemma validateRule_Inr: "validateRule j = Inr r \<Longrightarrow> r = rule_of j"
  by (auto simp: validateRule_def split: option.splits if_splits)

lemma valid_rule_eq: "valid_rule j \<Longrightarrow> validateRule j = Inr (rule_of j)"
  using validateRule_Inr [of j] by (cases "validateRule j") (auto simp: valid_rule_def)

lemma handleInvalidRegexError_regex:
  "regex (errorCounts (snd (handleInvalidRegexError h i p e))) = regex (errorCounts h) + 1"
  by (simp add: handleInvalidRegexError_def Let_def)

lemma load_rules_loop_invalid:
  "\<exists>j \<in> set js. \<not> valid_rule j \<Longrightarrow> isl (fst (load_rules_loop E eng js))"
proof (induction js arbitrary: eng)
  case Nil
  then show ?case by simp
next
  case (Cons j js)
  show ?case
  proof (cases "valid_rule j")
    case False
    then show ?thesis by (cases "validateRule j") (auto simp: valid_rule_def)
  next
    case True
    with Cons.prems have rest: "\<exists>j \<in> set js. \<not> valid_rule j" by auto
    from True have v: "validateRule j = Inr (rule_of j)" by (rule valid_rule_eq)
    show ?thesis
      using Cons.IH [OF rest]
      by (simp add: v Let_def split: sum.splits option.splits)
  qed
qed

lemma load_rules_loop_no_handler:
  assumes "errorHandler eng = None" and "\<forall>j \<in> set js. valid_rule j"
    and "\<exists>j \<in> set js. \<not> compiles E (rule_of j)"
  shows "isl (fst (load_rules_loop E eng js))"
  using assms
proof (induction js arbitrary: eng)
  case Nil
  then show ?case by simp
next
  case (Cons j js)
  from Cons.prems(2) have v: "validateRule j = Inr (rule_of j)" by (simp add: valid_rule_eq)
  show ?case
  proof (cases "compile E (r_pattern (rule_of j)) True")
    case (Inl msg)
    with Cons.prems(1) v show ?thesis by (simp add: Let_def)
  next
    case (Inr rx)
    then have "compiles E (rule_of j)" by (simp add: compiles_def)
    with Cons.prems(3) have rest: "\<exists>j \<in> set js. \<not> compiles E (rule_of j)" by auto
    let ?eng = "eng\<lparr>rules := rules eng @ [rule_of j],
                    compiledRules := (compiledRules eng)(r_id (rule_of j) \<mapsto> rx)\<rparr>"
    have "isl (fst (load_rules_loop E ?eng js))"
      using Cons.prems(1,2) rest by (intro Cons.IH) simp_all
    with v Inr show ?thesis by (simp add: Let_def)
  qed
qed

lemma load_rules_loop_valid:
  assumes "errorHandler eng = Some h" and "\<forall>j \<in> set js. valid_rule j"
  shows "fst (load_rules_loop E eng js) = Inr () \<and>
         rules (snd (load_rules_loop E eng js)) = rules eng @ map rule_of js \<and>
         dom (compiledRules (snd (load_rules_loop E eng js)))
           = dom (compiledRules eng) \<union> r_id ` {r \<in> set (map rule_of js). compiles E r} \<and>
         (\<exists>h'. errorHandler (snd (load_rules_loop E eng js)) = Some h' \<and>
               regex (errorCounts h')
                 = regex (errorCounts h)
                   + length (filter (\<lambda>r. \<not> compiles E r) (map rule_of js)))"
  using assms
proof (induction js arbitrary: eng h)
  case Nil
  then show ?case by simp
next
  case (Cons j js)
  from Cons.prems(2) have v: "validateRule j = Inr (rule_of j)" by (simp add: valid_rule_eq)
  from Cons.prems(2) have rest: "\<forall>j \<in> set js. valid_rule j" by simp
  let ?r = "rule_of j"
  show ?case
  proof (cases "compile E (r_pattern ?r) True")
    case (Inr rx)
    then have c: "compiles E ?r" by (simp add: compiles_def)
    let ?eng = "eng\<lparr>rules := rules eng @ [?r],
                    compiledRules := (compiledRules eng)(r_id ?r \<mapsto> rx)\<rparr>"
    have step: "load_rules_loop E eng (j # js) = load_rules_loop E ?eng js"
      using v Inr by (simp add: Let_def)
    have h: "errorHandler ?eng = Some h" using Cons.prems(1) by simp
    note ih = Cons.IH [OF h rest]
    have d0: "dom (compiledRules ?eng) = insert (r_id ?r) (dom (compiledRules eng))"
      by simp
    have d1: "r_id ` {r \<in> set (map rule_of (j # js)). compiles E r}
        = insert (r_id ?r) (r_id ` {r \<in> set (map rule_of js). compiles E r})"
      using c by auto
    have n: "length (filter (\<lambda>r. \<not> compiles E r) (map rule_of (j # js)))
        = length (filter (\<lambda>r. \<not> compiles E r) (map rule_of js))"
      using c by simp
    have "dom (compiledRules (snd (load_rules_loop E ?eng js)))
        = dom (compiledRules eng) \<union> r_id ` {r \<in> set (map rule_of (j # js)). compiles E r}"
      using ih [THEN conjunct2, THEN conjunct2, THEN conjunct1] unfolding d0 d1 by blast
    moreover have "rules (snd (load_rules_loop E ?eng js)) = rules eng @ map rule_of (j # js)"
      using ih [THEN conjunct2, THEN conjunct1] by simp
    ultimately show ?thesis
      unfolding step n using ih [THEN conjunct1] ih [THEN conjunct2, THEN conjunct2, THEN conjunct2]
      by blast
  next
    case (Inl msg)
    then have c: "\<not> compiles E ?r" by (simp add: compiles_def)
    let ?h = "snd (handleInvalidRegexError h (r_id ?r) (r_pattern ?r) msg)"
    let ?eng = "eng\<lparr>rules := rules eng @ [?r], errorHandler := Some ?h\<rparr>"
    have step: "load_rules_loop E eng (j # js) = load_rules_loop E ?eng js"
      using v Inl Cons.prems(1) by (simp add: Let_def)
    have h: "errorHandler ?eng = Some ?h" by simp
    note ih = Cons.IH [OF h rest]
    have d0: "dom (compiledRules ?eng) = dom (compiledRules eng)"
      by simp
    have d1: "r_id ` {r \<in> set (map rule_of (j # js)). compiles E r}
        = r_id ` {r \<in> set (map rule_of js). compiles E r}"
      using c by auto
    have n: "length (filter (\<lambda>r. \<not> compiles E r) (map rule_of (j # js)))
        = Suc (length (filter (\<lambda>r. \<not> compiles E r) (map rule_of js)))"
      using c by simp
    have "dom (compiledRules (snd (load_rules_loop E ?eng js)))
        = dom (compiledRules eng) \<union> r_id ` {r \<in> set (map rule_of (j # js)). compiles E r}"
      using ih [THEN conjunct2, THEN conjunct2, THEN conjunct1] unfolding d0 d1 by blast
    moreover have "rules (snd (load_rules_loop E ?eng js)) = rules eng @ map rule_of (j # js)"
      using ih [THEN conjunct2, THEN conjunct1] by simp
    moreover have "\<exists>h'. errorHandler (snd (load_rules_loop E ?eng js)) = Some h' \<and>
        regex (errorCounts h')
          = regex (errorCounts h)
            + length (filter (\<lambda>r. \<not> compiles E r) (map rule_of (j # js)))"
      using ih [THEN conjunct2, THEN conjunct2, THEN conjunct2]
      unfolding n by (simp add: handleInvalidRegexError_regex)
    ultimately show ?thesis
      unfolding step using ih [THEN conjunct1] by blast
  qed
qed

lemma check_required_None:
  "check_required j fs = None \<longleftrightarrow> (fs = [] \<or> (j \<noteq> JNull \<and> (\<forall>f \<in> set fs. truthy (field j f))))"
proof (induction fs)
  case Nil
  show ?case by simp
next
  case (Cons f fs)
  show ?case
  proof (cases j)
    case JNull
    then show ?thesis by simp
  qed (use Cons in \<open>auto simp: field_def\<close>)
qed

lemma valid_rule_iff:
  "valid_rule j \<longleftrightarrow>
     j \<noteq> JNull \<and> (\<forall>f \<in> set requiredFields. truthy (field j f)) \<and>
     is_string (field j ''id'') \<and> is_string (field j ''name'') \<and>
     is_string (field j ''pattern'') \<and> is_array (field j ''fileTypes'') \<and>
     field j ''severity'' \<in> {Some (JStr ''error''), Some (JStr ''warning''), Some (JStr ''info'')} \<and>
     (field j ''replacement'' = Some JNull \<or> is_string (field j ''replacement''))"
proof -
  have r: "requiredFields \<noteq> []" by (simp add: requiredFields_def)
  show ?thesis
  proof (cases "check_required j requiredFields")
    case None
    with r have "j \<noteq> JNull \<and> (\<forall>f \<in> set requiredFields. truthy (field j f))"
      by (simp add: check_required_None)
    with None show ?thesis
      by (simp add: valid_rule_def validateRule_def)
  next
    case (Some e)
    then have "\<not> (j \<noteq> JNull \<and> (\<forall>f \<in> set requiredFields. truthy (field j f)))"
      using r check_required_None [of j requiredFields] by auto
    with Some show ?thesis
      by (auto simp: valid_rule_def validateRule_def)
  qed
qed

text \<open>
  Claim C3, as stated, fails.  With an error handler in place and a rule list that is a
  list, one rule with a wrong severity makes \<open>loadRules\<close> throw; the rules after it are
  not looked at.
\<close>

theorem invalid_rule_is_fatal_counterexample:
  "fst (loadRules js_engine engine_with_handler (Parsed (rules_document bad_severity_rules)))
     = Inl (''Rule validation failed: \"severity\" must be one of: error, warning, info'') \<and>
   map r_id (rules (snd (loadRules js_engine engine_with_handler
                          (Parsed (rules_document bad_severity_rules))))) = [''first'']"
  by code_simp

text \<open>
  Claim C3, amended.  For a rules document whose \<open>rules\<close> entry is a list: a rule that
  fails \<open>validateRule\<close> makes \<open>loadRules\<close> throw; so does, without an error handler, a valid
  rule whose pattern does not compile.  With an error handler and all rules valid the load
  succeeds, the compiled expressions are those of the rules whose pattern compiles, and
  each rule whose pattern does not compile is reported once to the error handler as a
  \<open>regex\<close> error.  A document whose \<open>rules\<close> entry is missing or not a list makes
  \<open>loadRules\<close> throw.
\<close>

theorem loadRules_validation_and_compilation:
  assumes "get_prop cfg ''rules'' = Inr (Some (JArr js))"
  shows "((\<exists>j \<in> set js. \<not> valid_rule j) \<longrightarrow> isl (fst (loadRules E eng (Parsed cfg)))) \<and>
         ((\<forall>j \<in> set js. valid_rule j) \<and> errorHandler eng = None
            \<and> (\<exists>j \<in> set js. \<not> compiles E (rule_of j))
          \<longrightarrow> isl (fst (loadRules E eng (Parsed cfg)))) \<and>
         (\<forall>h. (\<forall>j \<in> set js. valid_rule j) \<and> errorHandler eng = Some h \<longrightarrow>
            fst (loadRules E eng (Parsed cfg)) = Inr () \<and>
            rules (snd (loadRules E eng (Parsed cfg))) = map rule_of js \<and>
            dom (compiledRules (snd (loadRules E eng (Parsed cfg))))
              = r_id ` {r \<in> set (map rule_of js). compiles E r} \<and>
            (\<exists>h'. errorHandler (snd (loadRules E eng (Parsed cfg))) = Some h' \<and>
                  regex (errorCounts h')
                    = regex (errorCounts h)
                      + length (filter (\<lambda>r. \<not> compiles E r) (map rule_of js)))) \<and>
         (\<forall>cfg' v. get_prop cfg' ''rules'' = Inr v \<and> \<not> is_array v \<longrightarrow>
            fst (loadRules E eng (Parsed cfg'))
              = Inl ''Invalid rules file: missing or invalid \"rules\" array'')"
proof -
  let ?eng = "eng\<lparr>rules := [], compiledRules := Map.empty\<rparr>"
  have lr: "loadRules E eng (Parsed cfg) = load_rules_loop E ?eng js"
    using assms by (simp add: loadRules_def)
  show ?thesis
  proof (intro conjI allI impI)
    assume "\<exists>j \<in> set js. \<not> valid_rule j"
    then show "isl (fst (loadRules E eng (Parsed cfg)))"
      unfolding lr by (rule load_rules_loop_invalid)
  next
    assume a: "(\<forall>j \<in> set js. valid_rule j) \<and> errorHandler eng = None
        \<and> (\<exists>j \<in> set js. \<not> compiles E (rule_of j))"
    then have "errorHandler ?eng = None" by simp
    with a show "isl (fst (loadRules E eng (Parsed cfg)))"
      unfolding lr by (intro load_rules_loop_no_handler) simp_all
  next
    fix h
    assume a: "(\<forall>j \<in> set js. valid_rule j) \<and> errorHandler eng = Some h"
    then have h: "errorHandler ?eng = Some h" and v: "\<forall>j \<in> set js. valid_rule j"
      by simp_all
    note l = load_rules_loop_valid [OF h v, of E]
    show "fst (loadRules E eng (Parsed cfg)) = Inr ()"
      unfolding lr using l by blast
    show "rules (snd (loadRules E eng (Parsed cfg))) = map rule_of js"
      unfolding lr using l [THEN conjunct2, THEN conjunct1] by simp
    show "dom (compiledRules (snd (loadRules E eng (Parsed cfg))))
        = r_id ` {r \<in> set (map rule_of js). compiles E r}"
      unfolding lr using l [THEN conjunct2, THEN conjunct2, THEN conjunct1] by simp
    show "\<exists>h'. errorHandler (snd (loadRules E eng (Parsed cfg))) = Some h' \<and>
        regex (errorCounts h')
          = regex (errorCounts h) + length (filter (\<lambda>r. \<not> compiles E r) (map rule_of js))"
      unfolding lr using l [THEN conjunct2, THEN conjunct2, THEN conjunct2] .
  next
    fix cfg' v
    assume "get_prop cfg' ''rules'' = Inr v \<and> \<not> is_array v"
    then show "fst (loadRules E eng (Parsed cfg'))
        = Inl ''Invalid rules file: missing or invalid \"rules\" array''"
      by (simp add: loadRules_def)
  qed
qed

theorem loadRules_validation_and_compilation_witness:
  "fst (loadRules js_engine engine_with_handler (Parsed (rules_document bad_pattern_rules)))
     = Inr () \<and>
   map r_id (rules (snd (loadRules js_engine engine_with_handler
                          (Parsed (rules_document bad_pattern_rules)))))
     = [''first'', ''second'', ''third''] \<and>
   dom (compiledRules (snd (loadRules js_engine engine_with_handler
                          (Parsed (rules_document bad_pattern_rules)))))
     = {''first'', ''third''} \<and>
   (\<exists>h'. errorHandler (snd (loadRules js_engine engine_with_handler
                          (Parsed (rules_document bad_pattern_rules)))) = Some h' \<and>
         regex (errorCounts h') = 1) \<and>
   isl (fst (loadRules js_engine (new_RuleEngine ''rules.json'' None)
               (Parsed (rules_document bad_pattern_rules)))) \<and>
   isl (fst (loadRules js_engine engine_with_handler
               (Parsed (rules_document bad_severity_rules)))) \<and>
   fst (loadRules js_engine engine_with_handler (Parsed (JObj [(''notRules'', JArr [])])))
     = Inl ''Invalid rules file: missing or invalid \"rules\" array''"
proof -
  let ?cfg = "rules_document bad_pattern_rules"
  have g: "get_prop ?cfg ''rules'' = Inr (Some (JArr bad_pattern_rules))"
    by (simp add: rules_document_def)
  have v: "\<forall>j \<in> set bad_pattern_rules. valid_rule j"
    unfolding bad_pattern_rules_def by code_simp
  have h: "errorHandler engine_with_handler = Some new_ErrorHandler"
    by (simp add: engine_with_handler_def new_RuleEngine_def)
  have c: "compiles js_engine (rule_of (rule_json ''first'' ''a'' (JStr ''b'')))"
    "\<not> compiles js_engine (rule_of (rule_json ''second'' ''(b'' (JStr ''c'')))"
    "compiles js_engine (rule_of (rule_json ''third'' ''c'' JNull))"
    by code_simp+
  have ids: "map r_id (map rule_of bad_pattern_rules) = [''first'', ''second'', ''third'']"
    by code_simp
  have z: "regex (errorCounts new_ErrorHandler) = 0"
    by (simp add: new_ErrorHandler_def new_error_counts_def)
  note t = loadRules_validation_and_compilation [OF g, of js_engine engine_with_handler,
      THEN conjunct2, THEN conjunct2, THEN conjunct1, rule_format, OF conjI [OF v h]]
  have f: "filter (compiles js_engine) (map rule_of bad_pattern_rules)
      = [rule_of (rule_json ''first'' ''a'' (JStr ''b'')), rule_of (rule_json ''third'' ''c'' JNull)]"
    using c by (simp add: bad_pattern_rules_def)
  have i: "r_id (rule_of (rule_json ''first'' ''a'' (JStr ''b''))) = ''first''"
    "r_id (rule_of (rule_json ''third'' ''c'' JNull)) = ''third''"
    by code_simp+
  have "r_id ` {r \<in> set (map rule_of bad_pattern_rules). compiles js_engine r}
      = set (map r_id (filter (compiles js_engine) (map rule_of bad_pattern_rules)))"
    by auto
  then have d: "r_id ` {r \<in> set (map rule_of bad_pattern_rules). compiles js_engine r}
      = {''first'', ''third''}"
    unfolding f by (simp add: i)
  have n: "length (filter (\<lambda>r. \<not> compiles js_engine r) (map rule_of bad_pattern_rules)) = 1"
    using c by (simp add: bad_pattern_rules_def)
  have nh: "errorHandler (new_RuleEngine ''rules.json'' None :: js_item list rule_engine) = None"
    by (simp add: new_RuleEngine_def)
  have nc: "\<exists>j \<in> set bad_pattern_rules. \<not> compiles js_engine (rule_of j)"
    using c(2) by (simp add: bad_pattern_rules_def)
  have 5: "isl (fst (loadRules js_engine (new_RuleEngine ''rules.json'' None)
      (Parsed (rules_document bad_pattern_rules))))"
    using loadRules_validation_and_compilation [OF g, of js_engine
        "new_RuleEngine ''rules.json'' None", THEN conjunct2, THEN conjunct1] v nh nc
    by blast
  let ?cfg' = "rules_document bad_severity_rules"
  have g': "get_prop ?cfg' ''rules'' = Inr (Some (JArr bad_severity_rules))"
    by (simp add: rules_document_def)
  have "\<not> valid_rule (rule_with_severity ''second'' ''b'' (JStr ''c'') (JStr ''critical''))"
    by code_simp
  then have iv: "\<exists>j \<in> set bad_severity_rules. \<not> valid_rule j"
    by (simp add: bad_severity_rules_def)
  have 6: "isl (fst (loadRules js_engine engine_with_handler (Parsed ?cfg')))"
    using loadRules_validation_and_compilation [OF g', of js_engine engine_with_handler,
        THEN conjunct1] iv
    by blast
  have "fst (loadRules js_engine engine_with_handler (Parsed ?cfg)) = Inr () \<and>
      map r_id (rules (snd (loadRules js_engine engine_with_handler (Parsed ?cfg))))
        = [''first'', ''second'', ''third''] \<and>
      dom (compiledRules (snd (loadRules js_engine engine_with_handler (Parsed ?cfg))))
        = {''first'', ''third''} \<and>
      (\<exists>h'. errorHandler (snd (loadRules js_engine engine_with_handler (Parsed ?cfg))) = Some h'
         \<and> regex (errorCounts h') = 1)"
    using t ids unfolding d n z by simp
  moreover have "fst (loadRules js_engine engine_with_handler
      (Parsed (JObj [(''notRules'', JArr [])])))
      = Inl ''Invalid rules file: missing or invalid \"rules\" array''"
    using loadRules_validation_and_compilation [OF g, of js_engine engine_with_handler,
        THEN conjunct2, THEN conjunct2, THEN conjunct2, rule_format,
        of "JObj [(''notRules'', JArr [])]" None]
    by simp
  ultimately show ?thesis using 5 6 by simp
qed

section \<open>Backing up the same file twice\<close>

lemma createBackup_success:
  assumes "createBackup fx fs t path = (Inr b, fx1, fs1)"
  shows "\<exists>c w fsa.
           fs path = Some (File c True w) \<and>
           fs_ensureDir fs (backupDir (options fx)) = Inr fsa \<and>
           fsa (backupDir (options fx)) = Some (Dir True) \<and>
           b = path_join (backupDir (options fx)) (backupName (options fx) t path) \<and>
           b \<noteq> path \<and>
           fs_copy fsa path b False = Inr fs1 \<and>
           fx1 = fx\<lparr>backupRegistry := AList.update path b (backupRegistry fx)\<rparr>"
  using assms
  by (auto simp: createBackup_def Let_def fs_access_read_def checkDiskSpace_def
      fs_access_write_def fs_ensureDir_def fs_copy_def
      split: sum.splits if_splits option.splits node.splits)

lemma backupName_same:
  "\<not> createTimestampedBackups opts \<or> t2 = t1 \<Longrightarrow> backupName opts t2 path = backupName opts t1 path"
  by (auto simp: backupName_def)

text \<open>
  Claim C4, as stated, fails.  With time-stamped backups (the default) a second call one
  millisecond later copies the file again: it returns another location, two artifacts
  exist, and the registry holds the second.
\<close>

theorem second_backup_counterexample:
  "backup_twice (fixer_in False) var_fs ''2025-08-14T15-55-15-707Z'' ''2025-08-14T15-55-15-708Z''
     ''/p/a.js''
     [''/p/.backups/a.js.2025-08-14T15-55-15-707Z.backup'',
      ''/p/.backups/a.js.2025-08-14T15-55-15-708Z.backup'']
   = (Inr ''/p/.backups/a.js.2025-08-14T15-55-15-707Z.backup'',
      Inr ''/p/.backups/a.js.2025-08-14T15-55-15-708Z.backup'',
      [(''/p/a.js'', ''/p/.backups/a.js.2025-08-14T15-55-15-708Z.backup'')],
      [Some (File var_content True True), Some (File var_content True True)])"
  by code_simp

text \<open>
  Claim C4, amended.  When the second call yields the same backup name as a first,
  successful call (backups without time stamp, or the same time stamp), it returns the
  same location and changes neither the fixer nor the file system, also when the file has
  been rewritten in between: the artifact of the first call is kept.
\<close>

theorem createBackup_same_name_idempotent:
  assumes "createBackup fx fs t1 path = (Inr b, fx1, fs1)"
    and "\<not> createTimestampedBackups (options fx) \<or> t2 = t1"
    and "fs2 = fs1(path \<mapsto> File c True w)"
  shows "createBackup fx1 fs2 t2 path = (Inr b, fx1, fs2) \<and> fs2 b = fs1 b"
proof -
  let ?dir = "backupDir (options fx)"
  from createBackup_success [OF assms(1)] obtain c0 w0 fsa where
    f: "fs path = Some (File c0 True w0)"
    and e: "fs_ensureDir fs ?dir = Inr fsa"
    and d: "fsa ?dir = Some (Dir True)"
    and b: "b = path_join ?dir (backupName (options fx) t1 path)"
    and bp: "b \<noteq> path"
    and cp: "fs_copy fsa path b False = Inr fs1"
    and fx1: "fx1 = fx\<lparr>backupRegistry := AList.update path b (backupRegistry fx)\<rparr>"
    by (elim exE conjE)
  have pd: "path \<noteq> ?dir"
    using f e d by (auto simp: fs_ensureDir_def split: option.splits node.splits)
  have bd: "b \<noteq> ?dir"
    using cp d by (auto simp: fs_copy_def split: option.splits node.splits if_splits)
  have d1: "fs1 ?dir = Some (Dir True)"
    using cp d bd by (auto simp: fs_copy_def split: option.splits node.splits if_splits)
  have "\<exists>cb rb wb. fs1 b = Some (File cb rb wb)"
    using cp by (auto simp: fs_copy_def split: option.splits node.splits if_splits)
  then obtain cb rb wb where b1: "fs1 b = Some (File cb rb wb)" by (elim exE)
  have opts: "options fx1 = options fx" by (simp add: fx1)
  have name: "path_join ?dir (backupName (options fx) t2 path) = b"
    using backupName_same [OF assms(2), of path] b by simp
  have p2: "fs2 path = Some (File c True w)" by (simp add: assms(3))
  have d2: "fs2 ?dir = Some (Dir True)" using d1 pd by (simp add: assms(3))
  have b2: "fs2 b = Some (File cb rb wb)" using b1 bp by (simp add: assms(3))
  have reg: "AList.update path b (backupRegistry fx1) = backupRegistry fx1"
    by (simp add: fx1)
  have s1: "fs_access_read fs2 path = Inr ()" by (simp add: fs_access_read_def p2)
  have s2: "isFile (fs2 path)" by (simp add: p2)
  have s3: "fs_ensureDir fs2 ?dir = Inr fs2" by (simp add: fs_ensureDir_def d2)
  have s4: "checkDiskSpace fs2 path ?dir = Inr ()"
    by (simp add: checkDiskSpace_def fs_access_write_def p2 d2)
  have s5: "fs_copy fs2 path b False = Inr fs2"
    using bp by (simp add: fs_copy_def p2 b2)
  have s6: "fx1\<lparr>backupRegistry := AList.update path b (backupRegistry fx1)\<rparr> = fx1"
    by (simp add: reg)
  have "createBackup fx1 fs2 t2 path = (Inr b, fx1, fs2)"
    by (simp add: createBackup_def opts Let_def name s1 s2 s3 s4 s5 s6)
  moreover have "fs2 b = fs1 b" using bp by (simp add: assms(3))
  ultimately show ?thesis by simp
qed

theorem createBackup_same_name_idempotent_witness:
  "\<exists>fx1 fs1.
     createBackup untimestamped_fixer var_fs ''2025-08-14T15-55-15-707Z'' ''/p/a.js''
       = (Inr ''/p/.backups/a.js.backup'', fx1, fs1) \<and>
     createBackup fx1 (fs1(''/p/a.js'' \<mapsto> File ''changed'' True True))
         ''2025-08-14T15-55-15-708Z'' ''/p/a.js''
       = (Inr ''/p/.backups/a.js.backup'', fx1, fs1(''/p/a.js'' \<mapsto> File ''changed'' True True)) \<and>
     (fs1(''/p/a.js'' \<mapsto> File ''changed'' True True)) ''/p/.backups/a.js.backup''
       = Some (File var_content True True)"
proof -
  let ?c = "createBackup untimestamped_fixer var_fs ''2025-08-14T15-55-15-707Z'' ''/p/a.js''"
  have r: "fst ?c = Inr ''/p/.backups/a.js.backup''"
    by code_simp
  have v: "snd (snd ?c) ''/p/.backups/a.js.backup'' = Some (File var_content True True)"
    by code_simp
  obtain fx1 fs1 where c: "?c = (Inr ''/p/.backups/a.js.backup'', fx1, fs1)"
    using r by (cases ?c) auto
  have u: "\<not> createTimestampedBackups (options untimestamped_fixer)
      \<or> ''2025-08-14T15-55-15-708Z'' = ''2025-08-14T15-55-15-707Z''"
    by (simp add: untimestamped_fixer_def new_Fixer_def)
  note t = createBackup_same_name_idempotent [OF c u refl, of "''changed''" True]
  have "fs1 ''/p/.backups/a.js.backup'' = Some (File var_content True True)"
    using v c by simp
  with t have l: "(fs1(''/p/a.js'' \<mapsto> File ''changed'' True True)) ''/p/.backups/a.js.backup''
      = Some (File var_content True True)"
    by simp
  show ?thesis
    by (rule exI [of _ fx1], rule exI [of _ fs1]) (intro conjI c t [THEN conjunct1] l)
qed

section \<open>The cap on the matches of one rule\<close>

lemma match_at_js_engine: "match_at js_engine rx s i = js_match_at rx s i"
  by (simp add: js_engine_def)

lemma regexp_exec_literal_run:
  assumes "i < n"
  shows "regexp_exec js_engine [One (Lit c)] (replicate n c) i
           = Some \<lparr>m_index = i, m_text = [c], m_groups = []\<rparr>"
proof -
  have "take (Suc 0) (replicate (n - i) c) = [c]"
    using assms by (cases "n - i") simp_all
  then show ?thesis
    using assms
    by (simp add: regexp_exec.simps [of js_engine _ _ i] match_at_js_engine js_match_at_def)
qed

lemma regexp_exec_literal_end:
  "regexp_exec js_engine [One (Lit c)] (replicate n c) n = None"
  by (simp add: regexp_exec.simps [of js_engine _ _ n] regexp_exec.simps [of js_engine _ _ "Suc n"]
      match_at_js_engine js_match_at_def)

lemma collect_matches_literal_run:
  "i \<le> n \<Longrightarrow> length (collect_matches js_engine [One (Lit c)] (replicate n c) i) = n - i"
proof (induction "n - i" arbitrary: i)
  case 0
  then have "i = n" by simp
  then show ?case
    by (simp add: collect_matches.simps [of js_engine _ _ n] regexp_exec_literal_end)
next
  case (Suc k)
  then have lt: "i < n" and k: "k = n - Suc i" by simp_all
  have "length (collect_matches js_engine [One (Lit c)] (replicate n c) (Suc i)) = n - Suc i"
    using Suc.hyps(1) [of "Suc i"] k lt by simp
  then show ?case
    using lt
    by (simp add: collect_matches.simps [of js_engine _ _ i] regexp_exec_literal_run
        next_index_def m_end_def)
qed

lemma many_matches: "length (collect_matches js_engine [One (Lit CHR ''a'')] many_content 0) = 10001"
  unfolding many_content_def by (simp add: collect_matches_literal_run)

lemma many_engine_value:
  "rules many_engine = [rule_of (rule_json ''many'' ''a'' JNull)] \<and>
   compiledRules many_engine ''many'' = Some [One (Lit CHR ''a'')] \<and>
   errorHandler many_engine = Some new_ErrorHandler \<and>
   r_id (rule_of (rule_json ''many'' ''a'' JNull)) = ''many'' \<and>
   r_fileTypes (rule_of (rule_json ''many'' ''a'' JNull)) = [JStr ''js'']"
  by code_simp

lemma too_many_not_timed_out: "\<not> str_includes too_many_matches ''timed out''"
  by code_simp

lemma applyRules_loop_too_many:
  assumes "JStr ext \<in> set (r_fileTypes r)" and "compiled (r_id r) = Some rx"
    and "maxIterations < length (collect_matches E rx content 0)"
  shows "applyRules_loop E compiled content path ext (r # rs) findings h
           = applyRules_loop E compiled content path ext rs findings
               (map_option (\<lambda>eh. snd (handleUnknownError eh ''rule application'' too_many_matches)) h)"
proof -
  have a: "applyRuleWithTimeout E rx 0 content r path = Inl too_many_matches"
    using assms(3) by (simp add: applyRuleWithTimeout_collect)
  show ?thesis
    using assms(1,2) a too_many_not_timed_out by (cases h) simp_all
qed

lemma handleUnknownError_effect:
  "er_type (fst (handleUnknownError eh operation msg)) = TUnknown \<and>
   recoverable (fst (handleUnknownError eh operation msg)) = False \<and>
   critical (fst (handleUnknownError eh operation msg)) = True \<and>
   errorCounts (snd (handleUnknownError eh operation msg))
     = (errorCounts eh)\<lparr>unknown := unknown (errorCounts eh) + 1\<rparr> \<and>
   console (snd (handleUnknownError eh operation msg))
     = console eh @ [Err (''Unexpected error during '' @ operation @ '': '' @ msg @ '' - ''
                          @ ''This may be a bug. Consider reporting it with --verbose output'')]"
  by (simp add: handleUnknownError_def Let_def)

text \<open>
  Claim C6, as stated, fails in its classification.  The scan of the rule is given up and
  yields no finding, but what the error handler records is an \<open>unknown\<close> error, written
  with \<open>console.error\<close>; the \<open>timeout\<close> counter stays at zero.
\<close>

theorem too_many_matches_counterexample:
  "fst (applyRules js_engine many_engine many_content ''/p/a.js'' ''js'') = [] \<and>
   map_option errorCounts
     (errorHandler (snd (applyRules js_engine many_engine many_content ''/p/a.js'' ''js'')))
     = Some \<lparr>permission = 0, fileSize = 0, encoding = 0, timeout = 0, memory = 0, regex = 0,
             filesystem = 0, unknown = 1\<rparr> \<and>
   map_option console
     (errorHandler (snd (applyRules js_engine many_engine many_content ''/p/a.js'' ''js'')))
     = Some [Err (''Unexpected error during rule application: ''
                  @ ''Too many regex matches (10000+) - possible infinite loop - ''
                  @ ''This may be a bug. Consider reporting it with --verbose output'')]"
proof -
  let ?r = "rule_of (rule_json ''many'' ''a'' JNull)"
  note v = many_engine_value
  have "maxIterations < length (collect_matches js_engine [One (Lit CHR ''a'')] many_content 0)"
    by (simp add: many_matches maxIterations_def)
  then have "applyRules_loop js_engine (compiledRules many_engine) many_content ''/p/a.js'' ''js''
        [?r] [] (Some new_ErrorHandler)
      = ([], Some (snd (handleUnknownError new_ErrorHandler ''rule application'' too_many_matches)))"
    using v
    by (subst applyRules_loop_too_many [where rx = "[One (Lit CHR ''a'')]"
          and compiled = "compiledRules many_engine"]) simp_all
  then have "applyRules js_engine many_engine many_content ''/p/a.js'' ''js''
      = ([], many_engine\<lparr>errorHandler :=
           Some (snd (handleUnknownError new_ErrorHandler ''rule application'' too_many_matches))\<rparr>)"
    using v by (simp add: applyRules_def)
  then show ?thesis
    by (simp add: handleUnknownError_effect new_ErrorHandler_def new_error_counts_def
        too_many_matches_def)
qed

text \<open>
  Claim C6, amended.  The scan of a rule yields the findings of all matches when there are
  at most 10,000 and is rejected when there are more.  A rule that applies to the file and
  has more matches contributes no finding, and the loop goes on with the next rule; with
  an error handler the rejection is recorded as an \<open>unknown\<close> error (not recoverable,
  critical) and the \<open>timeout\<close> counter is left alone, without one nothing is recorded.
\<close>

theorem too_many_matches_skips_rule:
  "applyRuleWithTimeout E rx 0 content r path
     = (if maxIterations < length (collect_matches E rx content 0)
        then Inl too_many_matches
        else Inr (map (make_finding r path content) (collect_matches E rx content 0))) \<and>
   (JStr ext \<in> set (r_fileTypes r) \<and> compiled (r_id r) = Some rx
      \<and> maxIterations < length (collect_matches E rx content 0) \<longrightarrow>
    applyRules_loop E compiled content path ext (r # rs) findings None
      = applyRules_loop E compiled content path ext rs findings None \<and>
    (\<forall>eh. applyRules_loop E compiled content path ext (r # rs) findings (Some eh)
            = applyRules_loop E compiled content path ext rs findings
                (Some (snd (handleUnknownError eh ''rule application'' too_many_matches))) \<and>
          er_type (fst (handleUnknownError eh ''rule application'' too_many_matches)) = TUnknown \<and>
          recoverable (fst (handleUnknownError eh ''rule application'' too_many_matches)) = False \<and>
          critical (fst (handleUnknownError eh ''rule application'' too_many_matches)) = True \<and>
          unknown (errorCounts (snd (handleUnknownError eh ''rule application'' too_many_matches)))
            = unknown (errorCounts eh) + 1 \<and>
          timeout (errorCounts (snd (handleUnknownError eh ''rule application'' too_many_matches)))
            = timeout (errorCounts eh)))"
proof (intro conjI impI allI)
  show "applyRuleWithTimeout E rx 0 content r path
     = (if maxIterations < length (collect_matches E rx content 0)
        then Inl too_many_matches
        else Inr (map (make_finding r path content) (collect_matches E rx content 0)))"
    by (rule applyRuleWithTimeout_collect)
next
  assume a: "JStr ext \<in> set (r_fileTypes r) \<and> compiled (r_id r) = Some rx
      \<and> maxIterations < length (collect_matches E rx content 0)"
  then have a1: "JStr ext \<in> set (r_fileTypes r)" and a2: "compiled (r_id r) = Some rx"
    and a3: "maxIterations < length (collect_matches E rx content 0)" by simp_all
  show "applyRules_loop E compiled content path ext (r # rs) findings None
      = applyRules_loop E compiled content path ext rs findings None"
    using applyRules_loop_too_many [where compiled = compiled and r = r and h = None,
        OF a1 a2 a3, of path rs findings] by simp
  fix eh
  show "applyRules_loop E compiled content path ext (r # rs) findings (Some eh)
      = applyRules_loop E compiled content path ext rs findings
          (Some (snd (handleUnknownError eh ''rule application'' too_many_matches)))"
    using applyRules_loop_too_many [where compiled = compiled and r = r and h = "Some eh",
        OF a1 a2 a3, of path rs findings] by simp
qed (simp_all add: handleUnknownError_effect)

theorem too_many_matches_skips_rule_witness:
  "applyRuleWithTimeout js_engine [One (Lit CHR ''a'')] 0 many_content
     (rule_of (rule_json ''many'' ''a'' JNull)) ''/p/a.js'' = Inl too_many_matches \<and>
   applyRules_loop js_engine (compiledRules many_engine) many_content ''/p/a.js'' ''js''
     (rules many_engine) [] None = ([], None) \<and>
   applyRules_loop js_engine (compiledRules many_engine) many_content ''/p/a.js'' ''js''
     (rules many_engine) [] (Some new_ErrorHandler)
     = ([], Some (snd (handleUnknownError new_ErrorHandler ''rule application''
                         too_many_matches)))"
proof -
  let ?r = "rule_of (rule_json ''many'' ''a'' JNull)"
  let ?rx = "[One (Lit CHR ''a'')]"
  note v = many_engine_value
  have n: "maxIterations < length (collect_matches js_engine ?rx many_content 0)"
    by (simp add: many_matches maxIterations_def)
  have h: "JStr ''js'' \<in> set (r_fileTypes ?r) \<and> compiledRules many_engine (r_id ?r) = Some ?rx
      \<and> maxIterations < length (collect_matches js_engine ?rx many_content 0)"
    using v n by simp
  note t = too_many_matches_skips_rule [of js_engine ?rx many_content ?r "''/p/a.js''" "''js''"
      "compiledRules many_engine" "[]" "[]"]
  have 1: "applyRuleWithTimeout js_engine ?rx 0 many_content ?r ''/p/a.js'' = Inl too_many_matches"
    using t [THEN conjunct1] n by simp
  have 2: "applyRules_loop js_engine (compiledRules many_engine) many_content ''/p/a.js'' ''js''
      (rules many_engine) [] None = ([], None)"
    using t [THEN conjunct2, rule_format, OF h, THEN conjunct1] v by simp
  have 3: "applyRules_loop js_engine (compiledRules many_engine) many_content ''/p/a.js'' ''js''
      (rules many_engine) [] (Some new_ErrorHandler)
      = ([], Some (snd (handleUnknownError new_ErrorHandler ''rule application''
                          too_many_matches)))"
    using t [THEN conjunct2, rule_format, OF h, THEN conjunct2, rule_format, of new_ErrorHandler,
        THEN conjunct1] v
    by simp
  from 1 2 3 show ?thesis by simp
qed

section \<open>Errors while fixing several files\<close>

lemma file_step_counts:
  assumes "file_step E opts t entry res fx fs = (e, res', fx', fs')"
  shows "filesProcessed res' = filesProcessed res + 1 \<and> errors res' = errors res"
  using assms
  by (auto simp: file_step_def Let_def split: prod.splits sum.splits if_splits)

lemma process_files_append:
  "process_files E opts clock k pre res fx fs = (None, res1, fx1, fs1) \<Longrightarrow>
   process_files E opts clock k (pre @ rest) res fx fs
     = process_files E opts clock (k + length pre) rest res1 fx1 fs1"
proof (induction pre arbitrary: k res fx fs)
  case Nil
  then show ?case by simp
next
  case (Cons entry pre)
  obtain e res' fx' fs' where st: "file_step E opts (clock k) entry res fx fs = (e, res', fx', fs')"
    by (cases "file_step E opts (clock k) entry res fx fs") auto
  show ?case
  proof (cases e)
    case None
    with st Cons.prems have "process_files E opts clock (Suc k) pre res' fx' fs' = (None, res1, fx1, fs1)"
      by simp
    from Cons.IH [OF this] st None show ?thesis by simp
  next
    case (Some msg)
    let ?res = "res'\<lparr>errors := errors res' @ [\<lparr>err_filePath = fst entry, err_error = msg\<rparr>]\<rparr>"
    from st Some Cons.prems have c: "continueOnError opts"
      by (auto simp: Let_def split: if_splits)
    with st Some Cons.prems have "process_files E opts clock (Suc k) pre ?res fx' fs' = (None, res1, fx1, fs1)"
      by (simp add: Let_def)
    from Cons.IH [OF this] st Some c show ?thesis by (simp add: Let_def)
  qed
qed

lemma process_files_continue:
  "continueOnError opts \<Longrightarrow> fst (process_files E opts clock k entries res fx fs) = None"
proof (induction entries arbitrary: k res fx fs)
  case Nil
  show ?case by simp
next
  case (Cons entry entries)
  obtain e res' fx' fs' where st: "file_step E opts (clock k) entry res fx fs = (e, res', fx', fs')"
    by (cases "file_step E opts (clock k) entry res fx fs") auto
  show ?case
    using Cons.IH [OF Cons.prems] Cons.prems st
    by (cases e) (simp_all add: Let_def)
qed

lemma process_files_results:
  assumes "process_files E opts clock k entries res fx fs = (None, res', fx', fs')"
  shows "filesProcessed res' = filesProcessed res + length entries \<and>
         (\<exists>es. errors res' = errors res @ es)"
  using assms
proof (induction entries arbitrary: k res fx fs)
  case Nil
  then show ?case by simp
next
  case (Cons entry entries)
  obtain e r1 fx1 fs1 where st: "file_step E opts (clock k) entry res fx fs = (e, r1, fx1, fs1)"
    by (cases "file_step E opts (clock k) entry res fx fs") auto
  note c = file_step_counts [OF st]
  show ?case
  proof (cases e)
    case None
    with st Cons.prems have "process_files E opts clock (Suc k) entries r1 fx1 fs1 = (None, res', fx', fs')"
      by simp
    from Cons.IH [OF this] c show ?thesis by simp
  next
    case (Some msg)
    let ?res = "r1\<lparr>errors := errors r1 @ [\<lparr>err_filePath = fst entry, err_error = msg\<rparr>]\<rparr>"
    from st Some Cons.prems have "process_files E opts clock (Suc k) entries ?res fx1 fs1 = (None, res', fx', fs')"
      by (auto simp: Let_def split: if_splits)
    from Cons.IH [OF this] c show ?thesis by auto
  qed
qed

lemma createBackup_fixer:
  assumes "createBackup fx fs t q = (r, fx', fs')"
  shows "options fx' = options fx \<and> fixedFiles fx' = fixedFiles fx \<and>
         (case r of Inl e \<Rightarrow> backupRegistry fx' = backupRegistry fx
                  | Inr b \<Rightarrow> backupRegistry fx' = AList.update q b (backupRegistry fx))"
  using assms
  by (auto simp: createBackup_def Let_def split: sum.splits if_splits)

lemma registered_update:
  "fst ` set (AList.update k v al) = insert k (fst ` set al)"
  by (simp add: AList.dom_update)

lemma file_step_fixer:
  assumes st: "file_step E opts t entry res fx fs = (e, res', fx', fs')"
  shows "options fx' = options fx \<and>
         registered fx \<subseteq> registered fx' \<and>
         (backupsCreated res \<noteq> [] \<longrightarrow> backupsCreated res' \<noteq> []) \<and>
         (backs_up opts fx fs t (fst entry) \<longrightarrow>
            fst entry \<in> registered fx' \<and> backupsCreated res' \<noteq> []) \<and>
         (backupBeforeFix opts \<and> \<not> dryRun (options fx) \<and> e = None \<longrightarrow>
            backs_up opts fx fs t (fst entry))"
proof (cases "backupBeforeFix opts \<and> \<not> dryRun (options fx)")
  case False
  with st show ?thesis
    by (auto simp: file_step_def Let_def backs_up_def registered_def
        split: prod.splits sum.splits if_splits)
next
  case True
  obtain r fxb fsb where cb: "createBackup fx fs t (fst entry) = (r, fxb, fsb)"
    by (cases "createBackup fx fs t (fst entry)") auto
  note f = createBackup_fixer [OF cb]
  show ?thesis
  proof (cases r)
    case (Inl msg)
    with st True cb f show ?thesis
      by (auto simp: file_step_def Let_def backs_up_def registered_def)
  next
    case (Inr b)
    with f have reg: "registered fxb = insert (fst entry) (registered fx)"
      by (simp add: registered_def registered_update)
    from f have o: "options fxb = options fx" by simp
    from st True cb Inr have "options fx' = options fxb \<and> registered fx' = registered fxb
        \<and> backupsCreated res' = backupsCreated res @ [b]"
      by (auto simp: file_step_def Let_def registered_def split: prod.splits sum.splits if_splits)
    with reg o True cb Inr show ?thesis
      by (auto simp: backs_up_def)
  qed
qed

lemma process_files_all_backed_up:
  assumes "\<not> continueOnError opts"
    and "process_files E opts clock k entries res fx fs = (None, res', fx', fs')"
  shows "options fx' = options fx \<and> registered fx \<subseteq> registered fx' \<and>
         errors res' = errors res \<and>
         (backupsCreated res \<noteq> [] \<longrightarrow> backupsCreated res' \<noteq> []) \<and>
         (backupBeforeFix opts \<and> \<not> dryRun (options fx) \<longrightarrow>
            fst ` set entries \<subseteq> registered fx' \<and>
            (entries \<noteq> [] \<longrightarrow> backupsCreated res' \<noteq> []))"
  using assms(2)
proof (induction entries arbitrary: k res fx fs)
  case Nil
  then show ?case by simp
next
  case (Cons entry entries)
  obtain e r1 fx1 fs1 where st: "file_step E opts (clock k) entry res fx fs = (e, r1, fx1, fs1)"
    by (cases "file_step E opts (clock k) entry res fx fs") auto
  have e: "e = None"
    using st Cons.prems assms(1) by (cases e) (auto simp: Let_def)
  with st Cons.prems have rest: "process_files E opts clock (Suc k) entries r1 fx1 fs1 = (None, res', fx', fs')"
    by simp
  note ih = Cons.IH [OF rest]
  note f = file_step_fixer [OF st]
  from f ih have o: "options fx' = options fx" by simp
  from f ih have m: "registered fx \<subseteq> registered fx'" by blast
  from f ih have b: "backupsCreated res \<noteq> [] \<longrightarrow> backupsCreated res' \<noteq> []" by blast
  from ih file_step_counts [OF st] have er: "errors res' = errors res" by simp
  have "backupBeforeFix opts \<and> \<not> dryRun (options fx) \<longrightarrow>
      fst ` set (entry # entries) \<subseteq> registered fx' \<and> backupsCreated res' \<noteq> []"
  proof
    assume en: "backupBeforeFix opts \<and> \<not> dryRun (options fx)"
    with f e have "fst entry \<in> registered fx1 \<and> backupsCreated r1 \<noteq> []" by blast
    moreover from en f have "backupBeforeFix opts \<and> \<not> dryRun (options fx1)" by simp
    ultimately show "fst ` set (entry # entries) \<subseteq> registered fx' \<and> backupsCreated res' \<noteq> []"
      using ih by auto
  qed
  with o m b er show ?case by simp
qed

lemma restoreFromBackup_frame:
  assumes "restoreFromBackup fx fs ps res = (res', fx', fs')"
  shows "backupRegistry fx' = backupRegistry fx \<and> options fx' = options fx \<and>
         (\<forall>p. p \<notin> set ps \<longrightarrow> fs' p = fs p)"
  using assms
proof (induction ps arbitrary: fx fs res)
  case Nil
  then show ?case by simp
next
  case (Cons p ps)
  show ?case
  proof (cases "map_of (backupRegistry fx) p")
    case None
    with Cons.prems Cons.IH show ?thesis by auto
  next
    case (Some b)
    show ?thesis
    proof (cases "b = [] \<or> fs b = None")
      case True
      with Some Cons.prems Cons.IH show ?thesis by (auto split: if_splits)
    next
      case False
      show ?thesis
      proof (cases "fs_copy fs b p True")
        case (Inl e)
        with False Some Cons.prems Cons.IH show ?thesis by auto
      next
        case (Inr fs1)
        then have fr: "\<forall>q. q \<noteq> p \<longrightarrow> fs1 q = fs q"
          by (auto simp: fs_copy_def split: option.splits node.splits if_splits)
        from Inr False Some Cons.prems
        have "restoreFromBackup (fx\<lparr>fixedFiles := fixedFiles fx - {p}\<rparr>) fs1 ps
            (res\<lparr>filesRestored := filesRestored res + 1\<rparr>) = (res', fx', fs')"
          by auto
        from Cons.IH [OF this] fr show ?thesis by auto
      qed
    qed
  qed
qed

lemma restoreFromBackup_restores:
  assumes "restoreFromBackup fx fs ps res = (res', fx', fs')"
    and "q \<in> set ps" and "map_of (backupRegistry fx) q = Some b" and "b \<noteq> []"
    and "b \<notin> set ps" and "fs b = Some (File c True w)" and "\<forall>dw. fs q \<noteq> Some (Dir dw)"
  shows "fs' q = Some (File c True w)"
  using assms
proof (induction ps arbitrary: fx fs res)
  case Nil
  then show ?case by simp
next
  case (Cons p ps)
  from Cons.prems(5) have bp: "b \<noteq> p" and bps: "b \<notin> set ps" by auto
  from Cons.prems(2,5) have bq: "b \<noteq> q" by auto
  obtain r1 fx1 fs1 where step:
    "restoreFromBackup fx fs [p] res = (r1, fx1, fs1)"
    by (cases "restoreFromBackup fx fs [p] res") auto
  have rest: "restoreFromBackup fx1 fs1 ps r1 = (res', fx', fs')"
    using step Cons.prems(1)
    by (auto split: option.splits if_splits sum.splits)
  from restoreFromBackup_frame [OF step]
  have reg1: "backupRegistry fx1 = backupRegistry fx" and fr1: "\<forall>x. x \<noteq> p \<longrightarrow> fs1 x = fs x"
    by auto
  have b1: "fs1 b = Some (File c True w)" using fr1 bp Cons.prems(6) by simp
  have q1: "fs1 q = Some (File c True w) \<or> (q \<noteq> p \<and> fs1 q = fs q)"
  proof (cases "q = p")
    case True
    with step Cons.prems(3,4,6,7) bq have "fs1 q = Some (File c True w)"
      by (auto simp: fs_copy_def split: option.splits node.splits)
    then show ?thesis by simp
  next
    case False
    with fr1 show ?thesis by simp
  qed
  then have nd: "\<forall>dw. fs1 q \<noteq> Some (Dir dw)" using Cons.prems(7) by auto
  show ?case
  proof (cases "q \<in> set ps")
    case True
    show ?thesis
      using Cons.IH [OF rest True _ Cons.prems(4) bps b1 nd] Cons.prems(3) reg1 by simp
  next
    case False
    with Cons.prems(2) have "q = p" by simp
    with q1 have "fs1 q = Some (File c True w)" by auto
    with restoreFromBackup_frame [OF rest] False show ?thesis by simp
  qed
qed

lemma rollbackChanges_restores:
  assumes "map_of (backupRegistry fx) q = Some b" and "b \<noteq> []" and "b \<notin> registered fx"
    and "fs b = Some (File c True w)" and "\<forall>dw. fs q \<noteq> Some (Dir dw)"
  shows "snd (snd (rollbackChanges fx fs)) q = Some (File c True w) \<and>
         backupRegistry (fst (snd (rollbackChanges fx fs))) = []"
proof -
  let ?ps = "map fst (backupRegistry fx)"
  obtain r fx' fs' where rs:
    "restoreFromBackup fx fs ?ps \<lparr>filesRestored = 0, restore_errors = []\<rparr> = (r, fx', fs')"
    by (cases "restoreFromBackup fx fs ?ps \<lparr>filesRestored = 0, restore_errors = []\<rparr>") auto
  have q: "q \<in> set ?ps" using assms(1) by (auto dest: map_of_SomeD intro: rev_image_eqI)
  have b: "b \<notin> set ?ps" using assms(3) by (simp add: registered_def)
  from restoreFromBackup_restores [OF rs q assms(1,2) b assms(4,5)] rs
  show ?thesis by (simp add: rollbackChanges_def)
qed

lemma two_files_findings_value:
  "two_files_findings = [var_finding ''/p/a.js'', var_finding ''/p/b.js'']"
  by code_simp

lemma two_files_entries:
  "filter is_fixable two_files_findings \<noteq> [] \<and>
   groupFindingsByFile (filter is_fixable two_files_findings)
     = Inr [(''/p/a.js'', [var_finding ''/p/a.js'']), (''/p/b.js'', [var_finding ''/p/b.js''])] \<and>
   object_entries [(''/p/a.js'', [var_finding ''/p/a.js'']), (''/p/b.js'', [var_finding ''/p/b.js''])]
     = [(''/p/a.js'', [var_finding ''/p/a.js''])] @ (''/p/b.js'', [var_finding ''/p/b.js'']) # []"
  unfolding two_files_findings_value by code_simp

text \<open>
  Claim C5.  Let the files of a call be processed in the order \<open>pre\<close>, \<open>entry\<close>, \<open>post\<close>, the
  files of \<open>pre\<close> leaving no error behind in the loop and the step for \<open>entry\<close> throwing \<open>e\<close>.
  Without \<open>continueOnError\<close> no file of \<open>pre\<close> had an error, the call throws the error of
  \<open>entry\<close> and \<open>post\<close> is not looked at; when a backup was made in the call
  \<open>rollbackChanges\<close> has run before: with backups on, every file of \<open>pre\<close>, and \<open>entry\<close> if its
  backup was made, is among the paths it restores, and a path whose registered backup is
  a readable file that is not itself restored holds the backup's content afterwards.
  With \<open>continueOnError\<close> the call returns its results: the error of \<open>entry\<close> is among
  \<open>errors\<close>, the loop has gone on with \<open>post\<close>, and every file was processed.
\<close>

theorem applyFixes_error_policy:
  assumes "filter is_fixable findings \<noteq> []"
    and "groupFindingsByFile (filter is_fixable findings) = Inr g"
    and "object_entries g = pre @ entry # post"
    and "process_files E opts clock 0 pre empty_results fx fs = (None, res1, fx1, fs1)"
    and "file_step E opts (clock (length pre)) entry res1 fx1 fs1 = (Some e, res2, fx2, fs2)"
  shows "(\<not> continueOnError opts \<longrightarrow>
            applyFixes E opts clock fx fs findings
              = (Inl (''Fix operation failed for '' @ fst entry @ '': '' @ e),
                 if backupsCreated res2 \<noteq> [] then snd (rollbackChanges fx2 fs2) else (fx2, fs2)) \<and>
            errors res1 = [] \<and>
            (backupBeforeFix opts \<and> \<not> dryRun (options fx) \<longrightarrow>
               fst ` set pre \<subseteq> registered fx2 \<and> (pre \<noteq> [] \<longrightarrow> backupsCreated res2 \<noteq> [])) \<and>
            (backs_up opts fx1 fs1 (clock (length pre)) (fst entry) \<longrightarrow>
               fst entry \<in> registered fx2 \<and> backupsCreated res2 \<noteq> []) \<and>
            (\<forall>q b c w. map_of (backupRegistry fx2) q = Some b \<and> b \<noteq> [] \<and> b \<notin> registered fx2
                 \<and> fs2 b = Some (File c True w) \<and> (\<forall>dw. fs2 q \<noteq> Some (Dir dw)) \<longrightarrow>
               snd (snd (rollbackChanges fx2 fs2)) q = Some (File c True w))) \<and>
         (continueOnError opts \<longrightarrow>
            (\<exists>res fx' fs'.
               applyFixes E opts clock fx fs findings = (Inr res, fx', fs') \<and>
               process_files E opts clock (Suc (length pre)) post
                 (res2\<lparr>errors := errors res2 @ [\<lparr>err_filePath = fst entry, err_error = e\<rparr>]\<rparr>)
                 fx2 fs2 = (None, res, fx', fs') \<and>
               filesProcessed res = length (pre @ entry # post) \<and>
               \<lparr>err_filePath = fst entry, err_error = e\<rparr> \<in> set (errors res)))"
proof (intro conjI impI)
  let ?err = "\<lparr>err_filePath = fst entry, err_error = e\<rparr>"
  let ?res2 = "res2\<lparr>errors := errors res2 @ [?err]\<rparr>"
  have split: "process_files E opts clock 0 (pre @ entry # post) empty_results fx fs
      = process_files E opts clock (length pre) (entry # post) res1 fx1 fs1"
    using process_files_append [OF assms(4), of "entry # post"] by simp
  note f = file_step_fixer [OF assms(5)]
  {
    assume nc: "\<not> continueOnError opts"
    have "process_files E opts clock 0 (pre @ entry # post) empty_results fx fs
        = (Some (''Fix operation failed for '' @ fst entry @ '': '' @ e), ?res2, fx2, fs2)"
      unfolding split using assms(5) nc by (simp add: Let_def)
    then show "applyFixes E opts clock fx fs findings
        = (Inl (''Fix operation failed for '' @ fst entry @ '': '' @ e),
           if backupsCreated res2 \<noteq> [] then snd (rollbackChanges fx2 fs2) else (fx2, fs2))"
      using assms(1,2,3)
      by (simp add: applyFixes_def Let_def split: prod.splits)
    note p = process_files_all_backed_up [OF nc assms(4)]
    from p show "errors res1 = []" by (simp add: empty_results_def)
    {
      assume en: "backupBeforeFix opts \<and> \<not> dryRun (options fx)"
      with p f show "fst ` set pre \<subseteq> registered fx2" by blast
      assume "pre \<noteq> []"
      with en p f show "backupsCreated res2 \<noteq> []" by blast
    }
    {
      assume "backs_up opts fx1 fs1 (clock (length pre)) (fst entry)"
      with f show "fst entry \<in> registered fx2" and "backupsCreated res2 \<noteq> []" by blast+
    }
    show "\<forall>q b c w. map_of (backupRegistry fx2) q = Some b \<and> b \<noteq> [] \<and> b \<notin> registered fx2
                 \<and> fs2 b = Some (File c True w) \<and> (\<forall>dw. fs2 q \<noteq> Some (Dir dw)) \<longrightarrow>
               snd (snd (rollbackChanges fx2 fs2)) q = Some (File c True w)"
      using rollbackChanges_restores [of fx2 _ _ fs2] by blast
  }
  assume c: "continueOnError opts"
  obtain x res fx' fs' where pf:
    "process_files E opts clock (Suc (length pre)) post ?res2 fx2 fs2 = (x, res, fx', fs')"
    by (cases "process_files E opts clock (Suc (length pre)) post ?res2 fx2 fs2") auto
  have "x = None"
    using process_files_continue [OF c, of E clock "Suc (length pre)" post ?res2 fx2 fs2] pf by simp
  with pf have pf': "process_files E opts clock (Suc (length pre)) post ?res2 fx2 fs2
      = (None, res, fx', fs')" by simp
  have all: "process_files E opts clock 0 (pre @ entry # post) empty_results fx fs
      = (None, res, fx', fs')"
    unfolding split using assms(5) c pf' by (simp add: Let_def)
  then have ap: "applyFixes E opts clock fx fs findings = (Inr res, fx', fs')"
    using assms(1,2,3) by (simp add: applyFixes_def Let_def)
  have n: "filesProcessed res = length (pre @ entry # post)"
    using process_files_results [OF all] by (simp add: empty_results_def)
  have "\<exists>es. errors res = errors ?res2 @ es"
    using process_files_results [OF pf'] by simp
  then have m: "?err \<in> set (errors res)" by auto
  show "\<exists>res fx' fs'.
       applyFixes E opts clock fx fs findings = (Inr res, fx', fs') \<and>
       process_files E opts clock (Suc (length pre)) post ?res2 fx2 fs2 = (None, res, fx', fs') \<and>
       filesProcessed res = length (pre @ entry # post) \<and> ?err \<in> set (errors res)"
    using ap pf' n m by blast
qed

theorem applyFixes_error_policy_witness:
  "fst (applyFixes js_engine abort_options fixed_clock (fixer_in False) two_files_fs
          two_files_findings)
     = Inl (''Fix operation failed for /p/b.js: ''
            @ ''Failed to fix file /p/b.js: EACCES: permission denied'') \<and>
   {''/p/a.js'', ''/p/b.js''} \<subseteq> registered (fst (snd (snd two_files_at_failure))) \<and>
   snd (snd (applyFixes js_engine abort_options fixed_clock (fixer_in False) two_files_fs
          two_files_findings)) ''/p/a.js'' = Some (File ''var a;'' True True) \<and>
   (\<exists>res. fst (applyFixes js_engine default_fix_options fixed_clock (fixer_in False)
                  two_files_fs two_files_findings) = Inr res \<and>
          filesProcessed res = 2 \<and>
          \<lparr>err_filePath = ''/p/b.js'',
           err_error = ''Failed to fix file /p/b.js: EACCES: permission denied''\<rparr>
            \<in> set (errors res))"
proof -
  let ?ea = "(''/p/a.js'', [var_finding ''/p/a.js''])"
  let ?eb = "(''/p/b.js'', [var_finding ''/p/b.js''])"
  let ?e = "''Failed to fix file /p/b.js: EACCES: permission denied''"
  let ?fx = "fixer_in False"
  let ?P = two_files_before_failure
  let ?S = two_files_at_failure
  note en = two_files_entries
  have "fst ?P = None" by code_simp
  then have "?P = (None, fst (snd ?P), fst (snd (snd ?P)), snd (snd (snd ?P)))"
    by (metis prod.collapse)
  then have p: "process_files js_engine abort_options fixed_clock 0 [?ea] empty_results ?fx
      two_files_fs = (None, fst (snd ?P), fst (snd (snd ?P)), snd (snd (snd ?P)))"
    by (simp add: two_files_before_failure_def)
  have "fst ?S = Some ?e" by code_simp
  then have "?S = (Some ?e, fst (snd ?S), fst (snd (snd ?S)), snd (snd (snd ?S)))"
    by (metis prod.collapse)
  then have s: "file_step js_engine abort_options (fixed_clock (length [?ea])) ?eb
      (fst (snd ?P)) (fst (snd (snd ?P))) (snd (snd (snd ?P)))
      = (Some ?e, fst (snd ?S), fst (snd (snd ?S)), snd (snd (snd ?S)))"
    by (simp add: two_files_at_failure_def fixed_clock_def)
  note t = applyFixes_error_policy [OF en [THEN conjunct1] en [THEN conjunct2, THEN conjunct1]
      en [THEN conjunct2, THEN conjunct2] p s, THEN conjunct1, rule_format]
  have nc: "\<not> continueOnError abort_options" by (simp add: abort_options_def)
  have bc: "backupsCreated (fst (snd ?S)) \<noteq> []" by code_simp
  have 1: "fst (applyFixes js_engine abort_options fixed_clock ?fx two_files_fs two_files_findings)
      = Inl (''Fix operation failed for /p/b.js: '' @ ?e)"
    using t [OF nc, THEN conjunct1] by simp
  have on: "backupBeforeFix abort_options \<and> \<not> dryRun (options ?fx)"
    by (simp add: abort_options_def fixer_in_def new_Fixer_def)
  have ra: "''/p/a.js'' \<in> registered (fst (snd (snd ?S)))"
    using t [OF nc, THEN conjunct2, THEN conjunct2, THEN conjunct1, rule_format, OF on,
        THEN conjunct1]
    by simp
  have "backs_up abort_options (fst (snd (snd ?P))) (snd (snd (snd ?P)))
      (fixed_clock (length [?ea])) (fst ?eb)"
    by code_simp
  then have rb: "''/p/b.js'' \<in> registered (fst (snd (snd ?S)))"
    using t [OF nc, THEN conjunct2, THEN conjunct2, THEN conjunct2, THEN conjunct1, rule_format,
        THEN conjunct1]
    by simp
  have fin: "snd (snd (applyFixes js_engine abort_options fixed_clock ?fx two_files_fs
      two_files_findings)) = snd (snd (rollbackChanges (fst (snd (snd ?S))) (snd (snd (snd ?S)))))"
    using t [OF nc, THEN conjunct1] bc by simp
  have h: "map_of (backupRegistry (fst (snd (snd ?S)))) ''/p/a.js''
        = Some ''/p/.backups/a.js.2025-08-14T15-55-15-707Z.backup'' \<and>
      ''/p/.backups/a.js.2025-08-14T15-55-15-707Z.backup'' \<noteq> [] \<and>
      ''/p/.backups/a.js.2025-08-14T15-55-15-707Z.backup'' \<notin> registered (fst (snd (snd ?S))) \<and>
      snd (snd (snd ?S)) ''/p/.backups/a.js.2025-08-14T15-55-15-707Z.backup''
        = Some (File ''var a;'' True True) \<and>
      snd (snd (snd ?S)) ''/p/a.js'' = Some (File ''const a;'' True True)"
    by code_simp
  have 2: "snd (snd (applyFixes js_engine abort_options fixed_clock ?fx two_files_fs
      two_files_findings)) ''/p/a.js'' = Some (File ''var a;'' True True)"
    unfolding fin
    using t [OF nc, THEN conjunct2, THEN conjunct2, THEN conjunct2, THEN conjunct2, rule_format,
        of "''/p/a.js''" "''/p/.backups/a.js.2025-08-14T15-55-15-707Z.backup''" "''var a;''" True] h
    by simp
  let ?Q = "process_files js_engine default_fix_options fixed_clock 0 [?ea] empty_results ?fx
              two_files_fs"
  let ?T = "file_step js_engine default_fix_options (fixed_clock (length [?ea])) ?eb
              (fst (snd ?Q)) (fst (snd (snd ?Q))) (snd (snd (snd ?Q)))"
  have "fst ?Q = None" by code_simp
  then have q: "?Q = (None, fst (snd ?Q), fst (snd (snd ?Q)), snd (snd (snd ?Q)))"
    by (metis prod.collapse)
  have "fst ?T = Some ?e" by code_simp
  then have r: "?T = (Some ?e, fst (snd ?T), fst (snd (snd ?T)), snd (snd (snd ?T)))"
    by (metis prod.collapse)
  have c: "continueOnError default_fix_options" by (simp add: default_fix_options_def)
  from applyFixes_error_policy [OF en [THEN conjunct1] en [THEN conjunct2, THEN conjunct1]
      en [THEN conjunct2, THEN conjunct2] q r, THEN conjunct2, rule_format, OF c]
  have 3: "\<exists>res. fst (applyFixes js_engine default_fix_options fixed_clock ?fx
                  two_files_fs two_files_findings) = Inr res \<and>
          filesProcessed res = 2 \<and>
          \<lparr>err_filePath = ''/p/b.js'', err_error = ?e\<rparr> \<in> set (errors res)"
    by auto
  from ra rb have 4: "{''/p/a.js'', ''/p/b.js''} \<subseteq> registered (fst (snd (snd ?S)))"
    by simp
  from 1 4 2 3 show ?thesis by (intro conjI)
qed

section \<open>Findings that cannot be fixed\<close>















end
